theory Spec2Isabelle
  imports Main "HOL-Library.Word"
begin

section \<open>Strings\<close>

text \<open>
  A JavaScript string is a sequence of UTF-16 code units; \<open>length\<close>, \<open>substring\<close>,
  \<open>trim\<close> and the regular expression of the server all work on code units.
\<close>

type_synonym jschar = "16 word"
type_synonym jsstring = "jschar list"

definition str :: "string \<Rightarrow> jsstring" where
  "str s = map of_char s"

section \<open>Sanitizer\<close>

definition MAX_MSG_LEN :: nat where
  "MAX_MSG_LEN = 128"

text \<open>
  \<open>RE_SPECIAL\<close> has two alternatives, tried in this order at every position:
  a run of control characters \<^verbatim>\<open>[\x00-\x1F\x7F]+\<close>, and the styling sequence
  \<^verbatim>\<open>\x1B\[([0-9]{1,2}(;[0-9]{1,2})?)?[m|K]\<close>. A matcher returns the remainders of
  the input after each way of matching, the preferred (greedy) one first, as the
  backtracking engine explores them.
\<close>

definition is_ctrl :: "jschar \<Rightarrow> bool" where
  "is_ctrl c \<longleftrightarrow> c \<le> 0x1F \<or> c = 0x7F"

definition is_digit :: "jschar \<Rightarrow> bool" where
  "is_digit c \<longleftrightarrow> 0x30 \<le> c \<and> c \<le> 0x39"

definition is_final :: "jschar \<Rightarrow> bool" where
  "is_final c \<longleftrightarrow> c = 0x6D \<or> c = 0x7C \<or> c = 0x4B"

fun digits12 :: "jsstring \<Rightarrow> jsstring list" where
  "digits12 (a # b # cs) =
     (if is_digit a then (if is_digit b then [cs, b # cs] else [b # cs]) else [])"
| "digits12 [a] = (if is_digit a then [[]] else [])"
| "digits12 [] = []"

fun semicolon :: "jsstring \<Rightarrow> jsstring list" where
  "semicolon (c # cs) = (if c = 0x3B then [cs] else [])"
| "semicolon [] = []"

definition second_param :: "jsstring \<Rightarrow> jsstring list" where
  "second_param cs = concat (map digits12 (semicolon cs)) @ [cs]"

definition params :: "jsstring \<Rightarrow> jsstring list" where
  "params cs = concat (map second_param (digits12 cs)) @ [cs]"

fun final_byte :: "jsstring \<Rightarrow> jsstring list" where
  "final_byte (c # cs) = (if is_final c then [cs] else [])"
| "final_byte [] = []"

fun match_ansi :: "jsstring \<Rightarrow> jsstring option" where
  "match_ansi (e # b # cs) =
     (if e = 0x1B \<and> b = 0x5B
      then (case concat (map final_byte (params cs)) of [] \<Rightarrow> None | r # _ \<Rightarrow> Some r)
      else None)"
| "match_ansi [a] = None"
| "match_ansi [] = None"

text \<open>\<open>line.replace(RE_SPECIAL, "")\<close>: every match is deleted, scanning left to right.\<close>

function strip_special :: "jsstring \<Rightarrow> jsstring" where
  "strip_special [] = []"
| "strip_special (c # cs) =
     (if is_ctrl c then strip_special (dropWhile is_ctrl cs)
      else (case match_ansi (c # cs) of
              Some r \<Rightarrow> strip_special r
            | None \<Rightarrow> c # strip_special cs))"
  by pat_completeness auto
termination
proof (relation "measure length")
  show "wf (measure length)" by simp
next
  fix c :: jschar and cs :: jsstring
  have "length (dropWhile is_ctrl cs) \<le> length cs"
    by (rule length_dropWhile_le)
  then show "(dropWhile is_ctrl cs, c # cs) \<in> measure length" by simp
next
  fix c :: jschar and cs r :: jsstring
  assume "\<not> is_ctrl c" and "match_ansi (c # cs) = Some r"
  then show "(r, c # cs) \<in> measure length"
    by (cases cs) (auto simp: is_ctrl_def split: if_splits)
next
  fix c :: jschar and cs :: jsstring
  show "(cs, c # cs) \<in> measure length" by simp
qed

text \<open>
  \<open>String.prototype.trim\<close> removes the code units of ECMAScript's WhiteSpace and
  LineTerminator productions from both ends.
\<close>

definition is_ws :: "jschar \<Rightarrow> bool" where
  "is_ws c \<longleftrightarrow>
     c = 0x09 \<or> c = 0x0A \<or> c = 0x0B \<or> c = 0x0C \<or> c = 0x0D \<or> c = 0x20 \<or> c = 0xA0 \<or>
     c = 0x1680 \<or> (0x2000 \<le> c \<and> c \<le> 0x200A) \<or> c = 0x2028 \<or> c = 0x2029 \<or>
     c = 0x202F \<or> c = 0x205F \<or> c = 0x3000 \<or> c = 0xFEFF"

definition trim :: "jsstring \<Rightarrow> jsstring" where
  "trim s = rev (dropWhile is_ws (rev (dropWhile is_ws s)))"

text \<open>
  What the \<open>submit\<close> handler does to the submitted line before it looks at it:
  \<open>replace\<close>, \<open>trim\<close>, and \<open>substring(0, MAX_MSG_LEN)\<close> when the line is longer.
\<close>

definition sanitize :: "jsstring \<Rightarrow> jsstring" where
  "sanitize line =
     (let l = trim (strip_special line)
      in if length l > MAX_MSG_LEN then take MAX_MSG_LEN l else l)"


section \<open>Output sinks, sessions and the registry\<close>

text \<open>
  The rendering layer is an external collaborator. Of a log widget the server uses
  \<open>output.add(line)\<close>, which appends one entry or raises, and \<open>output._parseTags\<close>,
  which turns styling tags into terminal codes; the latter is the parameter \<open>pt\<close>
  of everything below.
\<close>

record sink =
  entries :: "jsstring list"
  broken :: bool

definition add :: "jsstring \<Rightarrow> sink \<Rightarrow> sink option" where
  "add l snk = (if broken snk then None else Some (snk\<lparr>entries := entries snk @ [l]\<rparr>))"

text \<open>
  A stream object as the \<open>shell\<close> handler decorates it. Objects are compared by
  reference in the source (\<open>source === user\<close>, \<open>users.indexOf(stream)\<close>); \<open>sid\<close> is
  that identity. The registry \<open>users\<close> is the list of these objects in insertion order;
  the record in the list stands for the object, so that a write to the object is an
  update of the list.
\<close>

record session =
  sid :: nat
  name :: jsstring
  rows :: "32 word"
  columns :: "32 word"
  outputSink :: sink

text \<open>
  How a handler ends: normally, or by an exception that leaves the mutations made so
  far in place.
\<close>

datatype 'a completion = Normal 'a | Throw 'a

fun state_of :: "'a completion \<Rightarrow> 'a" where
  "state_of (Normal s) = s"
| "state_of (Throw s) = s"

fun prepend :: "'a \<Rightarrow> 'a list completion \<Rightarrow> 'a list completion" where
  "prepend u (Normal us) = Normal (u # us)"
| "prepend u (Throw us) = Throw (u # us)"

definition formatMessage :: "(jsstring \<Rightarrow> jsstring) \<Rightarrow> jsstring \<Rightarrow> sink \<Rightarrow> jsstring" where
  "formatMessage pt msg out = pt msg"

text \<open>
  \<open>for (const user of users) { ... user.output.add(line) }\<close>: the body either skips
  the user (\<open>continue\<close>) or adds one line to the user's sink.
\<close>

fun for_users :: "(session \<Rightarrow> jsstring option) \<Rightarrow> session list \<Rightarrow> session list completion" where
  "for_users body [] = Normal []"
| "for_users body (user # rest) =
     (case body user of
        None \<Rightarrow> prepend user (for_users body rest)
      | Some line \<Rightarrow>
          (case add line (outputSink user) of
             None \<Rightarrow> Throw (user # rest)
           | Some out \<Rightarrow> prepend (user\<lparr>outputSink := out\<rparr>) (for_users body rest)))"

definition userBroadcast ::
    "(jsstring \<Rightarrow> jsstring) \<Rightarrow> jsstring \<Rightarrow> session \<Rightarrow> session list \<Rightarrow> session list completion" where
  "userBroadcast pt msg source users =
     (let sourceMsg = str ''> '' @ msg;
          nm = str ''{cyan-fg}{bold}'' @ name source @ str ''{/}'';
          msg' = str '': '' @ msg
      in for_users
           (\<lambda>user. if sid source = sid user then Some sourceMsg
                    else Some (formatMessage pt nm (outputSink user) @ msg'))
           users)"

definition localMessage :: "(jsstring \<Rightarrow> jsstring) \<Rightarrow> jsstring \<Rightarrow> session \<Rightarrow> session option" where
  "localMessage pt msg source =
     (case add (formatMessage pt msg (outputSink source)) (outputSink source) of
        None \<Rightarrow> None
      | Some out \<Rightarrow> Some (source\<lparr>outputSink := out\<rparr>))"

section \<open>Nickname negotiation\<close>

definition MAX_NAME_LEN :: nat where
  "MAX_NAME_LEN = 10"

text \<open>Number-to-string conversion of a non-negative integer, as string concatenation does it.\<close>

fun decimal :: "nat \<Rightarrow> jsstring" where
  "decimal n = (if n < 10 then [of_nat (48 + n)] else decimal (n div 10) @ [of_nat (48 + n mod 10)])"

declare decimal.simps [simp del]

definition PROMPT_NAME :: jsstring where
  "PROMPT_NAME = str ''Enter a nickname to use (max '' @ decimal MAX_NAME_LEN @ str '' chars): ''"

definition prompt_in_use :: jsstring where
  "prompt_in_use = str ''That nickname is already in use.'' @ [0x0A] @ PROMPT_NAME"

definition prompt_required :: jsstring where
  "prompt_required = str ''A nickname is required.'' @ [0x0A] @ PROMPT_NAME"

definition prompt_too_long :: jsstring where
  "prompt_too_long = str ''That nickname is too long.'' @ [0x0A] @ PROMPT_NAME"

definition keyboard_interactive :: jsstring where
  "keyboard_interactive = str ''keyboard-interactive''"

text \<open>
  What a handler tells the transport: \<open>ctx.accept()\<close>, \<open>ctx.reject(methods)\<close> or
  \<open>ctx.prompt(text, retryPrompt)\<close>.
\<close>

datatype auth_result = Accept jsstring | Reject "jsstring list" | Prompt jsstring

text \<open>
  The loop over \<open>users\<close> that looks for a member whose lowered name equals \<open>lowered\<close>.
  \<open>String.prototype.toLowerCase\<close> is the parameter \<open>toLowerCase\<close>.
\<close>

definition in_use :: "(jsstring \<Rightarrow> jsstring) \<Rightarrow> session list \<Rightarrow> jsstring \<Rightarrow> bool" where
  "in_use toLowerCase users lowered = list_ex (\<lambda>user. toLowerCase (name user) = lowered) users"

definition challenge :: "jsstring \<Rightarrow> jsstring \<Rightarrow> auth_result" where
  "challenge method prompt =
     (if method \<noteq> keyboard_interactive then Reject [keyboard_interactive] else Prompt prompt)"

text \<open>
  The bodies of the \<open>authentication\<close> handler and of its callback \<open>retryPrompt\<close>, as
  functions of the registry at the moment they run.
\<close>

definition authentication ::
    "(jsstring \<Rightarrow> jsstring) \<Rightarrow> session list \<Rightarrow> jsstring \<Rightarrow> jsstring \<Rightarrow> auth_result" where
  "authentication toLowerCase users username method =
     (let nick = username
      in if length nick > 0 \<and> length nick \<le> MAX_NAME_LEN then
           (if in_use toLowerCase users (toLowerCase nick) then challenge method prompt_in_use
            else Accept nick)
         else if length nick = 0 then challenge method prompt_required
         else challenge method prompt_too_long)"

definition retryPrompt ::
    "(jsstring \<Rightarrow> jsstring) \<Rightarrow> session list \<Rightarrow> jsstring list \<Rightarrow> auth_result" where
  "retryPrompt toLowerCase users answers =
     (case answers of
        [] \<Rightarrow> Reject [keyboard_interactive]
      | nick # _ \<Rightarrow>
          if length nick > MAX_NAME_LEN then Prompt prompt_too_long
          else if length nick = 0 then Prompt prompt_required
          else if in_use toLowerCase users (toLowerCase nick) then Prompt prompt_in_use
          else Accept nick)"


section \<open>Connections\<close>

text \<open>
  The variables that the handlers of one connection close over (\<open>stream\<close>, \<open>name\<close>,
  \<open>rows\<close>, \<open>cols\<close>, \<open>term\<close>; \<open>None\<close> is \<open>undefined\<close>), and what the transport and the
  widgets hold for it: the prompt awaiting an answer, whether the one-shot \<open>pty\<close>
  listener is still armed, whether the \<open>submit\<close> listener is attached, and whether
  \<open>stream.end()\<close> has been called. \<open>cstream\<close> is the reference that \<open>stream\<close> holds, and
  \<open>cobject\<close> the object behind it as the \<open>shell\<close> handler set it up: its identity and its
  name are never written again, and nothing else is read of a stream through the variable.
\<close>

record conn =
  cstream :: "nat option"
  cobject :: "session option"
  cname :: "jsstring option"
  crows :: "32 word option"
  ccols :: "32 word option"
  cterm :: "jsstring option"
  cprompt :: "jsstring option"
  cpty :: bool
  cinput :: bool
  cended :: bool

definition fresh_conn :: conn where
  "fresh_conn = \<lparr>cstream = None, cobject = None, cname = None, crows = None, ccols = None, cterm = None,
     cprompt = None, cpty = False, cinput = False, cended = False\<rparr>"

record state =
  users :: "session list"
  conns :: "nat \<Rightarrow> conn"

definition init :: state where
  "init = \<lparr>users = [], conns = (\<lambda>c. fresh_conn)\<rparr>"

text \<open>The registry as a loop over it leaves it, whether the loop ended or raised.\<close>

fun put_users :: "state \<Rightarrow> session list completion \<Rightarrow> state completion" where
  "put_users s (Normal us) = Normal (s\<lparr>users := us\<rparr>)"
| "put_users s (Throw us) = Throw (s\<lparr>users := us\<rparr>)"

definition set_conn :: "nat \<Rightarrow> conn \<Rightarrow> state \<Rightarrow> state" where
  "set_conn c k s = s\<lparr>conns := (conns s)(c := k)\<rparr>"

definition record_result :: "auth_result \<Rightarrow> conn \<Rightarrow> conn" where
  "record_result r k =
     (case r of
        Accept nick \<Rightarrow> k\<lparr>cname := Some nick, cprompt := None\<rparr>
      | Reject methods \<Rightarrow> k\<lparr>cprompt := None\<rparr>
      | Prompt text \<Rightarrow> k\<lparr>cprompt := Some text\<rparr>)"

text \<open>
  The transport raises \<open>authentication\<close> for the requests of a connection that is not
  yet authenticated, and calls \<open>retryPrompt\<close> with the answers to a prompt it has sent.
\<close>

definition on_authentication ::
    "(jsstring \<Rightarrow> jsstring) \<Rightarrow> nat \<Rightarrow> jsstring \<Rightarrow> jsstring \<Rightarrow> state \<Rightarrow> state" where
  "on_authentication toLowerCase c username method s =
     (case cname (conns s c) of
        Some nm \<Rightarrow> s
      | None \<Rightarrow>
          set_conn c
            (record_result (authentication toLowerCase (users s) username method) (conns s c)) s)"

definition on_answers ::
    "(jsstring \<Rightarrow> jsstring) \<Rightarrow> nat \<Rightarrow> jsstring list \<Rightarrow> state \<Rightarrow> state" where
  "on_answers toLowerCase c answers s =
     (case cprompt (conns s c) of
        None \<Rightarrow> s
      | Some text \<Rightarrow>
          set_conn c (record_result (retryPrompt toLowerCase (users s) answers) (conns s c)) s)"

section \<open>Terminal geometry\<close>

text \<open>
  The listeners for \<open>pty\<close> (one-shot) and \<open>window-change\<close> exist on the session of an
  authenticated connection. A window change also writes to the stream once there is one.
\<close>

definition on_pty :: "nat \<Rightarrow> 32 word \<Rightarrow> 32 word \<Rightarrow> jsstring \<Rightarrow> state \<Rightarrow> state" where
  "on_pty c r cl t s =
     (let k = conns s c
      in if cname k = None \<or> cpty k then s
         else set_conn c (k\<lparr>crows := Some r, ccols := Some cl, cterm := Some t, cpty := True\<rparr>) s)"

definition resize :: "nat \<Rightarrow> 32 word \<Rightarrow> 32 word \<Rightarrow> session \<Rightarrow> session" where
  "resize i r cl u = (if sid u = i then u\<lparr>rows := r, columns := cl\<rparr> else u)"

definition on_window_change :: "nat \<Rightarrow> 32 word \<Rightarrow> 32 word \<Rightarrow> state \<Rightarrow> state" where
  "on_window_change c r cl s =
     (let k = conns s c
      in if cname k = None then s
         else (let s' = set_conn c (k\<lparr>crows := Some r, ccols := Some cl\<rparr>) s
               in case cstream k of
                    None \<Rightarrow> s'
                  | Some i \<Rightarrow> s'\<lparr>users := map (resize i r cl) (users s')\<rparr>))"

text \<open>\<open>v || d\<close> on a number that may be \<open>undefined\<close>: \<open>undefined\<close> and \<open>0\<close> are falsy.\<close>

definition or_default :: "32 word option \<Rightarrow> 32 word \<Rightarrow> 32 word" where
  "or_default v d = (case v of None \<Rightarrow> d | Some x \<Rightarrow> if x = 0 then d else x)"

section \<open>Joining, chatting, leaving\<close>

definition greeting :: "nat \<Rightarrow> jsstring" where
  "greeting others =
     str ''{blue-bg}{white-fg}{bold}Welcome to SSH Chat!{/}'' @ [0x0A] @
     str ''There are {bold}'' @ decimal others @ str ''{/} other user(s) connected.'' @ [0x0A] @
     str ''Type /quit or /exit to exit the chat.''"

definition joined :: "(jsstring \<Rightarrow> jsstring) \<Rightarrow> jsstring \<Rightarrow> session \<Rightarrow> jsstring" where
  "joined pt nm user =
     formatMessage pt (str ''{green-fg}*** {bold}'') (outputSink user) @ nm @
     formatMessage pt (str ''{/bold} has joined the chat{/}'') (outputSink user)"

definition left :: "(jsstring \<Rightarrow> jsstring) \<Rightarrow> jsstring \<Rightarrow> session \<Rightarrow> jsstring" where
  "left pt nm user =
     formatMessage pt (str ''{magenta-fg}*** {bold}'') (outputSink user) @ nm @
     formatMessage pt (str ''{/bold} has left the chat{/}'') (outputSink user)"

text \<open>String concatenation with a variable that may still be \<open>undefined\<close>.\<close>

definition to_string :: "jsstring option \<Rightarrow> jsstring" where
  "to_string v = (case v of None \<Rightarrow> str ''undefined'' | Some x \<Rightarrow> x)"

text \<open>
  The \<open>shell\<close> handler. The transport raises \<open>ready\<close> only after \<open>ctx.accept()\<close>, which
  is where \<open>name\<close> is assigned, and the listener is one-shot.
\<close>

definition on_shell :: "(jsstring \<Rightarrow> jsstring) \<Rightarrow> nat \<Rightarrow> state \<Rightarrow> state completion" where
  "on_shell pt c s =
     (let k = conns s c
      in case cname k of
           None \<Rightarrow> Normal s
         | Some nm \<Rightarrow>
             if cstream k \<noteq> None then Normal s
             else
               (let stream = \<lparr>sid = c, name = nm, rows = or_default (crows k) 24,
                               columns = or_default (ccols k) 80,
                               outputSink = \<lparr>entries = [], broken = False\<rparr>\<rparr>;
                    k' = k\<lparr>cstream := Some c, cobject := Some stream\<rparr>;
                    n = length (users s @ [stream])
                in case localMessage pt (greeting (n - 1)) stream of
                     None \<Rightarrow> Throw (set_conn c k' (s\<lparr>users := users s @ [stream]\<rparr>))
                   | Some stream' \<Rightarrow>
                       (case for_users
                               (\<lambda>user. if sid user = sid stream' then None
                                        else Some (joined pt nm user))
                               (users s @ [stream']) of
                          Throw us \<Rightarrow> Throw (set_conn c k' (s\<lparr>users := us\<rparr>))
                        | Normal us \<Rightarrow>
                            Normal (set_conn c (k'\<lparr>cinput := True\<rparr>) (s\<lparr>users := us\<rparr>)))))"

definition is_quit :: "jsstring \<Rightarrow> bool" where
  "is_quit line \<longleftrightarrow> line = str ''/quit'' \<or> line = str ''/exit''"

text \<open>
  The \<open>submit\<close> listener of the input box. It exists once the \<open>shell\<close> handler has run
  to its end. It has no test for the stream being registered: it ends the stream or
  broadcasts with the stream as the author in either case. Reading through an undefined
  \<open>stream\<close> raises.
\<close>

definition on_submit :: "(jsstring \<Rightarrow> jsstring) \<Rightarrow> nat \<Rightarrow> jsstring \<Rightarrow> state \<Rightarrow> state completion" where
  "on_submit pt c line0 s =
     (let k = conns s c
      in if \<not> cinput k then Normal s
         else
           (let line = sanitize line0
            in if length line > 0 then
                 (case cobject k of
                    None \<Rightarrow> Throw s
                  | Some stream \<Rightarrow>
                      if is_quit line then Normal (set_conn c (k\<lparr>cended := True\<rparr>) s)
                      else put_users s (userBroadcast pt line stream (users s)))
               else Normal s))"

text \<open>
  \<open>users.indexOf(stream)\<close>, which is \<open>-1\<close> when the stream is not in the array, and
  \<open>users.splice(start, 1)\<close>, which counts a negative \<open>start\<close> from the end of the array.
\<close>

fun indexOf :: "session list \<Rightarrow> nat \<Rightarrow> int" where
  "indexOf [] i = - 1"
| "indexOf (u # us) i =
     (if sid u = i then 0 else (let j = indexOf us i in if j < 0 then - 1 else j + 1))"

definition splice1 :: "int \<Rightarrow> 'a list \<Rightarrow> 'a list" where
  "splice1 start xs =
     (let len = int (length xs);
          actualStart = (if start < 0 then max (len + start) 0 else min start len)
      in take (nat actualStart) xs @ drop (nat actualStart + 1) xs)"

text \<open>The \<open>close\<close> handler; it reads \<open>stream\<close> and \<open>name\<close> of its connection.\<close>

definition on_close :: "(jsstring \<Rightarrow> jsstring) \<Rightarrow> nat \<Rightarrow> state \<Rightarrow> state completion" where
  "on_close pt c s =
     (let k = conns s c
      in case cstream k of
           None \<Rightarrow> Normal s
         | Some stream \<Rightarrow>
             put_users s
               (for_users (\<lambda>user. Some (left pt (to_string (cname k)) user))
                  (splice1 (indexOf (users s) stream) (users s))))"

section \<open>Runs\<close>

text \<open>
  The events of the transport and of the widgets, each for one connection, and one event
  of the environment: the sink of a stream starts or stops raising on a write. A run
  handles a list of events from left to right; after a handler that raised it goes on
  from the state the handler left.
\<close>

datatype event =
    Authentication nat jsstring jsstring
  | Answers nat "jsstring list"
  | Pty nat "32 word" "32 word" jsstring
  | WindowChange nat "32 word" "32 word"
  | Shell nat
  | Submit nat jsstring
  | Close nat
  | SinkFault nat bool

definition sink_fault :: "nat \<Rightarrow> bool \<Rightarrow> session \<Rightarrow> session" where
  "sink_fault i b u = (if sid u = i then u\<lparr>outputSink := (outputSink u)\<lparr>broken := b\<rparr>\<rparr> else u)"

fun step ::
    "(jsstring \<Rightarrow> jsstring) \<Rightarrow> (jsstring \<Rightarrow> jsstring) \<Rightarrow> state \<Rightarrow> event \<Rightarrow> state completion" where
  "step pt lc s (Authentication c username method) = Normal (on_authentication lc c username method s)"
| "step pt lc s (Answers c answers) = Normal (on_answers lc c answers s)"
| "step pt lc s (Pty c r cl t) = Normal (on_pty c r cl t s)"
| "step pt lc s (WindowChange c r cl) = Normal (on_window_change c r cl s)"
| "step pt lc s (Shell c) = on_shell pt c s"
| "step pt lc s (Submit c line) = on_submit pt c line s"
| "step pt lc s (Close c) = on_close pt c s"
| "step pt lc s (SinkFault i b) = Normal (s\<lparr>users := map (sink_fault i b) (users s)\<rparr>)"

fun run ::
    "(jsstring \<Rightarrow> jsstring) \<Rightarrow> (jsstring \<Rightarrow> jsstring) \<Rightarrow> state \<Rightarrow> event list \<Rightarrow> state" where
  "run pt lc s [] = s"
| "run pt lc s (e # es) = run pt lc (state_of (step pt lc s e)) es"

section \<open>Notions used in the statements\<close>

text \<open>
  A sink with one more entry; what a loop over the registry does to a member whose sink
  accepts the line; and what such a loop may change of a member and what it may not.
\<close>

definition append_line :: "jsstring \<Rightarrow> session \<Rightarrow> session" where
  "append_line l u = u\<lparr>outputSink := (outputSink u)\<lparr>entries := entries (outputSink u) @ [l]\<rparr>\<rparr>"

definition deliver :: "(session \<Rightarrow> jsstring option) \<Rightarrow> session \<Rightarrow> session" where
  "deliver body u = (case body u of None \<Rightarrow> u | Some l \<Rightarrow> append_line l u)"

definition same_identity :: "session \<Rightarrow> session \<Rightarrow> bool" where
  "same_identity u v \<longleftrightarrow>
     sid v = sid u \<and> name v = name u \<and> rows v = rows u \<and> columns v = columns u \<and>
     broken (outputSink v) = broken (outputSink u)"

definition ident :: "session \<Rightarrow> nat \<times> jsstring" where
  "ident u = (sid u, name u)"

text \<open>
  The line that a broadcast of \<open>msg\<close> by \<open>source\<close> renders for \<open>user\<close>: the echo for the
  author, the line with the styled name for everybody else.
\<close>

definition rendered :: "(jsstring \<Rightarrow> jsstring) \<Rightarrow> jsstring \<Rightarrow> session \<Rightarrow> session \<Rightarrow> jsstring" where
  "rendered pt msg source user =
     (if sid source = sid user then str ''> '' @ msg
      else pt (str ''{cyan-fg}{bold}'' @ name source @ str ''{/}'') @ str '': '' @ msg)"

text \<open>
  The stream object as the \<open>shell\<close> handler leaves it before the first write to its
  log, and the body of the handler's loop over the registry.
\<close>

definition new_stream :: "nat \<Rightarrow> jsstring \<Rightarrow> conn \<Rightarrow> session" where
  "new_stream c nm k = \<lparr>sid = c, name = nm, rows = or_default (crows k) 24,
     columns = or_default (ccols k) 80, outputSink = \<lparr>entries = [], broken = False\<rparr>\<rparr>"

definition join_body :: "(jsstring \<Rightarrow> jsstring) \<Rightarrow> nat \<Rightarrow> jsstring \<Rightarrow> session \<Rightarrow> jsstring option" where
  "join_body pt c nm user = (if sid user = c then None else Some (joined pt nm user))"

text \<open>
  A nickname that one of the two places of the negotiator can accept against the
  registry \<open>us\<close>.
\<close>

definition accepted_by :: "(jsstring \<Rightarrow> jsstring) \<Rightarrow> session list \<Rightarrow> jsstring \<Rightarrow> bool" where
  "accepted_by lc us nick \<longleftrightarrow>
     (\<exists>username method. authentication lc us username method = Accept nick) \<or>
     (\<exists>answers. retryPrompt lc us answers = Accept nick)"

text \<open>
  Case-insensitive comparison is comparison of the lowered names, as in the source.
\<close>

definition names_distinct :: "(jsstring \<Rightarrow> jsstring) \<Rightarrow> session list \<Rightarrow> bool" where
  "names_distinct lc us = distinct (map (\<lambda>u. lc (name u)) us)"

text \<open>
  The name a connection was accepted with is still unused, in that sense, at the moment
  its \<open>shell\<close> handler registers the stream; and a run in which this holds at every
  registration.
\<close>

fun fresh_at_join :: "(jsstring \<Rightarrow> jsstring) \<Rightarrow> state \<Rightarrow> event \<Rightarrow> bool" where
  "fresh_at_join lc s (Shell c) =
     (case cname (conns s c) of
        None \<Rightarrow> True
      | Some nm \<Rightarrow> \<not> in_use lc (users s) (lc nm))"
| "fresh_at_join lc s e = True"

fun fresh_joins ::
    "(jsstring \<Rightarrow> jsstring) \<Rightarrow> (jsstring \<Rightarrow> jsstring) \<Rightarrow> state \<Rightarrow> event list \<Rightarrow> bool" where
  "fresh_joins pt lc s [] = True"
| "fresh_joins pt lc s (e # es) =
     (fresh_at_join lc s e \<and> fresh_joins pt lc (state_of (step pt lc s e)) es)"

text \<open>
  Invariants of the runs: the length of every name, the shape of the registry (every
  stream once, each the stream of its own connection and carrying that connection's
  name, and the object behind that connection's \<open>stream\<close> being this one), and no prompt
  pending on an authenticated connection.
\<close>

definition name_inv :: "state \<Rightarrow> bool" where
  "name_inv s \<longleftrightarrow>
     (\<forall>u\<in>set (users s). 1 \<le> length (name u) \<and> length (name u) \<le> 10) \<and>
     (\<forall>c n. cname (conns s c) = Some n \<longrightarrow> 1 \<le> length n \<and> length n \<le> 10)"

definition registry_ok :: "state \<Rightarrow> bool" where
  "registry_ok s \<longleftrightarrow>
     distinct (map sid (users s)) \<and>
     (\<forall>u\<in>set (users s). cstream (conns s (sid u)) = Some (sid u) \<and>
                           cname (conns s (sid u)) = Some (name u) \<and>
                           map_option ident (cobject (conns s (sid u))) = Some (ident u))"

definition conns_ok :: "state \<Rightarrow> bool" where
  "conns_ok s \<longleftrightarrow> (\<forall>c. cname (conns s c) \<noteq> None \<longrightarrow> cprompt (conns s c) = None)"




fun raised :: "'a completion \<Rightarrow> bool" where
  "raised (Throw s) = True"
| "raised (Normal s) = False"

text \<open>
  The events that carry a terminal geometry for connection \<open>c\<close>.
\<close>

fun geometry_event :: "nat \<Rightarrow> event \<Rightarrow> bool" where
  "geometry_event c (Pty c' r cl t) = (c' = c)"
| "geometry_event c (WindowChange c' r cl) = (c' = c)"
| "geometry_event c e = False"

text \<open>
  A geometry event that its listener handles in state \<open>s\<close>: the listeners exist for an
  authenticated connection, and the one for \<open>pty\<close> fires once. A run in which no geometry
  event is handled for connection \<open>c\<close>.
\<close>

fun geometry_handled :: "nat \<Rightarrow> state \<Rightarrow> event \<Rightarrow> bool" where
  "geometry_handled c s (Pty c' r cl t) =
     (c' = c \<and> cname (conns s c) \<noteq> None \<and> \<not> cpty (conns s c))"
| "geometry_handled c s (WindowChange c' r cl) = (c' = c \<and> cname (conns s c) \<noteq> None)"
| "geometry_handled c s e = False"

fun none_handled ::
    "(jsstring \<Rightarrow> jsstring) \<Rightarrow> (jsstring \<Rightarrow> jsstring) \<Rightarrow> nat \<Rightarrow> state \<Rightarrow> event list \<Rightarrow> bool" where
  "none_handled pt lc c s [] = True"
| "none_handled pt lc c s (e # es) =
     (\<not> geometry_handled c s e \<and> none_handled pt lc c (state_of (step pt lc s e)) es)"

text \<open>
  Concrete inputs. \<open>toLowerCase\<close> on ASCII letters, a registered member with an empty
  log, and some states reached from the initial one; in \<open>bob_raising\<close> ann, bob and cy are
  registered, bob's sink raises, and dan is accepted but has no shell yet.
\<close>

definition ascii_lower :: "jschar \<Rightarrow> jschar" where
  "ascii_lower ch = (if 0x41 \<le> ch \<and> ch \<le> 0x5A then ch + 0x20 else ch)"

definition lc_ascii :: "jsstring \<Rightarrow> jsstring" where
  "lc_ascii = map ascii_lower"

definition sample_session :: "nat \<Rightarrow> jsstring \<Rightarrow> bool \<Rightarrow> session" where
  "sample_session i nm b = \<lparr>sid = i, name = nm, rows = 24, columns = 80,
     outputSink = \<lparr>entries = [], broken = b\<rparr>\<rparr>"

definition ann_accepted :: state where
  "ann_accepted = run id lc_ascii init [Authentication 1 (str ''ann'') (str ''none'')]"


definition bob_raising :: state where
  "bob_raising =
     run id lc_ascii init
       [Authentication 1 (str ''ann'') (str ''none''), Shell 1,
        Authentication 2 (str ''bob'') (str ''none''), Shell 2,
        Authentication 3 (str ''cy'') (str ''none''), Shell 3,
        SinkFault 2 True,
        Authentication 4 (str ''dan'') (str ''none'')]"

definition ann_and_bob :: state where
  "ann_and_bob =
     run id lc_ascii init
       [Authentication 1 (str ''ann'') (str ''none''), Shell 1,
        Authentication 2 (str ''bob'') (str ''none''), Shell 2]"

section \<open>Properties of the sanitizer\<close>

lemma match_ansi_starts_with_esc:
  "match_ansi (c # cs) = Some r \<Longrightarrow> is_ctrl c"
  by (cases cs) (auto simp: is_ctrl_def split: if_splits)

lemma filter_dropWhile_ctrl:
  "filter (\<lambda>c. \<not> is_ctrl c) (dropWhile is_ctrl cs) = filter (\<lambda>c. \<not> is_ctrl c) cs"
  by (induction cs) auto

lemma strip_special_filter: "strip_special cs = filter (\<lambda>c. \<not> is_ctrl c) cs"
proof (induction cs rule: strip_special.induct)
  case 1
  show ?case by simp
next
  case (2 c cs)
  show ?case
  proof (cases "is_ctrl c")
    case True
    with 2 show ?thesis by (simp add: filter_dropWhile_ctrl)
  next
    case False
    then have "match_ansi (c # cs) = None"
      using match_ansi_starts_with_esc by (cases "match_ansi (c # cs)") auto
    with False 2 show ?thesis by simp
  qed
qed

lemma sanitize_take: "sanitize x = take MAX_MSG_LEN (trim (strip_special x))"
  by (simp add: sanitize_def Let_def)

lemma trim_head: "trim s = [] \<or> \<not> is_ws (hd (trim s))"
proof (cases "trim s = []")
  case True
  then show ?thesis by simp
next
  case False
  define t where "t = dropWhile is_ws s"
  have t: "t = [] \<or> \<not> is_ws (hd t)"
    unfolding t_def by (metis hd_dropWhile)
  have tr: "trim s = rev (dropWhile is_ws (rev t))"
    by (simp add: trim_def t_def)
  with False have ne: "dropWhile is_ws (rev t) \<noteq> []" by simp
  then obtain a where a: "a \<in> set (rev t)" "\<not> is_ws a"
    by (metis dropWhile_eq_Nil_conv)
  have "rev t = takeWhile is_ws (rev t) @ dropWhile is_ws (rev t)" by simp
  then have "t = rev (dropWhile is_ws (rev t)) @ rev (takeWhile is_ws (rev t))"
    by (metis rev_append rev_rev_ident)
  then have "hd t = hd (rev (dropWhile is_ws (rev t)))"
    using ne by (metis hd_append2 rev_is_Nil_conv)
  with t tr False show ?thesis by auto
qed

lemma trim_last: "trim s = [] \<or> \<not> is_ws (last (trim s))"
proof (cases "trim s = []")
  case True
  then show ?thesis by simp
next
  case False
  then have "dropWhile is_ws (rev (dropWhile is_ws s)) \<noteq> []"
    by (simp add: trim_def)
  then have "\<not> is_ws (hd (dropWhile is_ws (rev (dropWhile is_ws s))))"
    by (rule hd_dropWhile)
  then show ?thesis
    using False by (simp add: trim_def last_rev)
qed

lemma trim_fixed_iff:
  "trim s = s \<longleftrightarrow> (s = [] \<or> (\<not> is_ws (hd s) \<and> \<not> is_ws (last s)))"
proof
  assume "trim s = s"
  then show "s = [] \<or> (\<not> is_ws (hd s) \<and> \<not> is_ws (last s))"
    using trim_head [of s] trim_last [of s] by auto
next
  assume r: "s = [] \<or> (\<not> is_ws (hd s) \<and> \<not> is_ws (last s))"
  show "trim s = s"
  proof (cases s)
    case Nil
    then show ?thesis by (simp add: trim_def)
  next
    case (Cons a as)
    with r have h: "\<not> is_ws a" and l: "\<not> is_ws (last s)" by auto
    from h Cons have 1: "dropWhile is_ws s = s" by simp
    from Cons have sne: "s \<noteq> []" by simp
    then have "hd (rev s) = last s" by (simp add: hd_rev)
    with l have "\<not> is_ws (hd (rev s))" by simp
    moreover from sne have "rev s \<noteq> []" by simp
    ultimately have "dropWhile is_ws (rev s) = rev s"
      by (cases "rev s") auto
    with 1 show ?thesis by (simp add: trim_def)
  qed
qed

lemma length_trim: "length (trim s) \<le> length s"
proof -
  have "length (dropWhile is_ws (rev (dropWhile is_ws s))) \<le> length (rev (dropWhile is_ws s))"
    by (rule length_dropWhile_le)
  moreover have "length (dropWhile is_ws s) \<le> length s"
    by (rule length_dropWhile_le)
  ultimately show ?thesis by (simp add: trim_def)
qed

lemma set_trim: "set (trim s) \<subseteq> set s"
proof -
  have "set (trim s) \<subseteq> set (dropWhile is_ws s)"
    unfolding trim_def set_rev using set_dropWhileD by fastforce
  also have "\<dots> \<subseteq> set s"
    using set_dropWhileD by fastforce
  finally show ?thesis .
qed

lemma length_sanitize: "length (sanitize x) \<le> MAX_MSG_LEN"
  by (simp add: sanitize_take)

lemma sanitize_no_ctrl: "c \<in> set (sanitize x) \<Longrightarrow> \<not> is_ctrl c"
proof -
  assume "c \<in> set (sanitize x)"
  then have "c \<in> set (trim (strip_special x))"
    unfolding sanitize_take by (rule in_set_takeD)
  then have "c \<in> set (strip_special x)"
    using set_trim by blast
  then show ?thesis by (simp add: strip_special_filter)
qed

lemma strip_special_sanitize: "strip_special (sanitize x) = sanitize x"
  unfolding strip_special_filter
  by (rule filter_True) (simp add: sanitize_no_ctrl)

lemma sanitize_head: "sanitize x = [] \<or> \<not> is_ws (hd (sanitize x))"
proof (cases "sanitize x = []")
  case True
  then show ?thesis by simp
next
  case False
  then have "trim (strip_special x) \<noteq> []" "MAX_MSG_LEN \<noteq> 0"
    by (auto simp: sanitize_take)
  then have "hd (sanitize x) = hd (trim (strip_special x))"
    by (simp add: sanitize_take hd_take)
  with trim_head [of "strip_special x"] \<open>trim (strip_special x) \<noteq> []\<close> show ?thesis
    by simp
qed

lemma sanitize_twice: "sanitize (sanitize x) = trim (sanitize x)"
proof -
  have "length (trim (sanitize x)) \<le> MAX_MSG_LEN"
    using length_trim [of "sanitize x"] length_sanitize [of x] by simp
  then show ?thesis
    by (simp add: sanitize_take [of "sanitize x"] strip_special_sanitize)
qed

text \<open>
  Claim C3, as the code has it. Sanitizing twice gives the same text as sanitizing once
  exactly when the sanitized text does not end in a whitespace character (it never
  starts with one): truncation to 128 code units happens after trimming and can expose
  a whitespace character at the end, and the second pass trims it away.
\<close>

theorem sanitize_idempotent_iff:
  "sanitize (sanitize x) = sanitize x \<longleftrightarrow>
     (sanitize x = [] \<or> \<not> is_ws (last (sanitize x)))"
  using sanitize_head [of x] by (auto simp: sanitize_twice trim_fixed_iff)

theorem sanitize_idempotent_iff_witness:
  "sanitize (sanitize (str ''  hi there  '')) = sanitize (str ''  hi there  '') \<and>
   \<not> is_ws (last (sanitize (str ''  hi there  '')))"
proof -
  have s: "sanitize (str ''  hi there  '') = str ''hi there''"
    by (simp add: sanitize_take strip_special_filter trim_def str_def is_ctrl_def is_ws_def
        MAX_MSG_LEN_def)
  have l: "\<not> is_ws (last (sanitize (str ''  hi there  '')))"
    unfolding s by (simp add: str_def is_ws_def)
  with sanitize_idempotent_iff [of "str ''  hi there  ''"] show ?thesis by simp
qed

text \<open>
  Claim C3, as stated, fails: 127 letters, a space and one more letter are cut after the
  space, and sanitizing the result again removes that space.
\<close>

theorem sanitize_not_idempotent:
  "sanitize (sanitize (replicate 127 0x61 @ [0x20, 0x62])) \<noteq> sanitize (replicate 127 0x61 @ [0x20, 0x62])"
proof -
  have 1: "sanitize (replicate 127 0x61 @ [0x20, 0x62]) = replicate 127 0x61 @ [0x20]"
    by (simp add: sanitize_take strip_special_filter trim_def is_ctrl_def is_ws_def MAX_MSG_LEN_def)
  have 2: "sanitize (replicate 127 0x61 @ [0x20]) = replicate 127 0x61"
    by (simp add: sanitize_take strip_special_filter trim_def is_ctrl_def is_ws_def MAX_MSG_LEN_def)
  have "length (replicate 127 (0x61 :: jschar)) \<noteq> length (replicate 127 (0x61 :: jschar) @ [0x20])"
    by simp
  then have "replicate 127 (0x61 :: jschar) \<noteq> replicate 127 0x61 @ [0x20]"
    by metis
  with 1 2 show ?thesis by simp
qed

text \<open>
  Claim C4 at the input \<open>ESC [ 3 1 m h i\<close>. The first alternative of \<open>RE_SPECIAL\<close>
  consumes the escape character on its own, so the styling alternative never gets to
  match and the rest of the sequence, \<open>[31m\<close>, stays in the sanitized line.
\<close>

theorem sanitize_keeps_ansi_tail:
  "match_ansi [0x1B, 0x5B, 0x33, 0x31, 0x6D, 0x68, 0x69] = Some [0x68, 0x69] \<and>
   sanitize [0x1B, 0x5B, 0x33, 0x31, 0x6D, 0x68, 0x69] = [0x5B, 0x33, 0x31, 0x6D, 0x68, 0x69]"
  by (simp add: sanitize_def trim_def is_ctrl_def is_ws_def MAX_MSG_LEN_def
      params_def second_param_def is_digit_def is_final_def)

section \<open>Loops over the registry\<close>

lemma state_of_prepend: "state_of (prepend u r) = u # state_of r"
  by (cases r) simp_all

lemma add_working: "\<not> broken snk \<Longrightarrow> add l snk = Some (snk\<lparr>entries := entries snk @ [l]\<rparr>)"
  by (simp add: add_def)

lemma add_broken: "broken snk \<Longrightarrow> add l snk = None"
  by (simp add: add_def)

lemma for_users_working:
  "\<forall>u\<in>set us. \<not> broken (outputSink u) \<Longrightarrow> for_users body us = Normal (map (deliver body) us)"
proof (induction us)
  case Nil
  show ?case by simp
next
  case (Cons u us)
  then have "for_users body us = Normal (map (deliver body) us)" by simp
  moreover from Cons.prems have "\<not> broken (outputSink u)" by simp
  ultimately show ?case
    by (cases "body u") (simp_all add: deliver_def append_line_def add_working)
qed

lemma for_users_first_failure:
  assumes "\<forall>u\<in>set pre. \<not> broken (outputSink u)" and "broken (outputSink f)" and "body f \<noteq> None"
  shows "for_users body (pre @ f # post) = Throw (map (deliver body) pre @ f # post)"
  using assms(1)
proof (induction pre)
  case Nil
  from assms(2,3) show ?case by (auto simp: add_broken)
next
  case (Cons u pre)
  then have "for_users body (pre @ f # post) = Throw (map (deliver body) pre @ f # post)" by simp
  moreover from Cons.prems have "\<not> broken (outputSink u)" by simp
  ultimately show ?case
    by (cases "body u") (simp_all add: deliver_def append_line_def add_working)
qed

lemma for_users_same_identity: "list_all2 same_identity us (state_of (for_users body us))"
proof (induction us)
  case Nil
  show ?case by simp
next
  case (Cons u us)
  have refl: "same_identity u u" by (simp add: same_identity_def)
  have refl_all: "list_all2 same_identity us us"
    by (simp add: list_all2_same same_identity_def)
  show ?case
  proof (cases "body u")
    case None
    with Cons refl show ?thesis by (simp add: state_of_prepend)
  next
    case (Some l)
    show ?thesis
    proof (cases "add l (outputSink u)")
      case None
      with Some refl refl_all show ?thesis by simp
    next
      case (Some out)
      then have "broken out = broken (outputSink u)"
        by (auto simp: add_def split: if_splits)
      then have "same_identity u (u\<lparr>outputSink := out\<rparr>)"
        by (simp add: same_identity_def)
      with Cons \<open>body u = Some l\<close> Some show ?thesis by (simp add: state_of_prepend)
    qed
  qed
qed

lemma same_identity_map:
  assumes "list_all2 same_identity us vs"
  shows "map sid vs = map sid us" and "map name vs = map name us"
    and "map rows vs = map rows us" and "map columns vs = map columns us"
  using assms by (induction rule: list_all2_induct) (simp_all add: same_identity_def)

lemmas for_users_keeps = same_identity_map [OF for_users_same_identity]

lemma same_identity_ident:
  "list_all2 same_identity us vs \<Longrightarrow> map ident vs = map ident us"
  by (induction rule: list_all2_induct) (simp_all add: same_identity_def ident_def)

lemmas for_users_ident = same_identity_ident [OF for_users_same_identity]

lemma last_same_identity:
  assumes "list_all2 same_identity us vs" and "us \<noteq> []"
  shows "same_identity (last us) (last vs)"
proof -
  from assms have len: "length vs = length us" and ne: "vs \<noteq> []"
    by (auto dest: list_all2_lengthD)
  from assms(2) have "length us - 1 < length us" by (cases us) simp_all
  with assms(1) have "same_identity (us ! (length us - 1)) (vs ! (length us - 1))"
    by (rule list_all2_nthD)
  with assms(2) ne len show ?thesis by (simp add: last_conv_nth)
qed


lemma put_users_simps:
  "users (state_of (put_users s r)) = state_of r"
  "conns (state_of (put_users s r)) = conns s"
  by (cases r; simp)+

section \<open>Broadcast\<close>

lemma userBroadcast_for_users:
  "userBroadcast pt msg source us = for_users (\<lambda>user. Some (rendered pt msg source user)) us"
  by (simp add: userBroadcast_def rendered_def formatMessage_def Let_def if_distrib cong: if_cong)

lemma deliver_Some: "deliver (\<lambda>user. Some (f user)) = (\<lambda>u. append_line (f u) u)"
  by (rule ext) (simp add: deliver_def)

text \<open>
  Claim C1, as the code has it. A broadcast walks the registry in order and nothing
  catches an error of a write. As long as every sink so far accepts its line, each member
  gets the line rendered for it. At the first member whose sink raises, the broadcast
  ends with that error: the members before it have their line, that member and every
  member after it have nothing new, and the registry keeps all its members.
\<close>

theorem userBroadcast_stops_at_first_failure:
  assumes "\<forall>u\<in>set pre. \<not> broken (outputSink u)"
  shows "userBroadcast pt msg source pre =
           Normal (map (\<lambda>u. append_line (rendered pt msg source u) u) pre) \<and>
         (broken (outputSink f) \<longrightarrow>
            userBroadcast pt msg source (pre @ f # post) =
              Throw (map (\<lambda>u. append_line (rendered pt msg source u) u) pre @ f # post))"
proof
  show "userBroadcast pt msg source pre =
          Normal (map (\<lambda>u. append_line (rendered pt msg source u) u) pre)"
    unfolding userBroadcast_for_users
    using for_users_working [OF assms] by (simp add: deliver_Some)
next
  show "broken (outputSink f) \<longrightarrow>
          userBroadcast pt msg source (pre @ f # post) =
            Throw (map (\<lambda>u. append_line (rendered pt msg source u) u) pre @ f # post)"
  proof
    assume "broken (outputSink f)"
    with assms show "userBroadcast pt msg source (pre @ f # post) =
        Throw (map (\<lambda>u. append_line (rendered pt msg source u) u) pre @ f # post)"
      unfolding userBroadcast_for_users
      using for_users_first_failure [of pre f "\<lambda>user. Some (rendered pt msg source user)" post]
      by (simp add: deliver_Some)
  qed
qed

theorem userBroadcast_stops_at_first_failure_witness:
  "list_all (\<lambda>u. \<not> broken (outputSink u)) [sample_session 1 (str ''ann'') False] \<and>
   broken (outputSink (sample_session 2 (str ''bob'') True)) \<and>
   userBroadcast id (str ''hi'') (sample_session 1 (str ''ann'') False)
     ([sample_session 1 (str ''ann'') False] @ sample_session 2 (str ''bob'') True # [sample_session 3 (str ''cy'') False]) =
   Throw ([append_line (str ''> hi'') (sample_session 1 (str ''ann'') False)] @
          sample_session 2 (str ''bob'') True # [sample_session 3 (str ''cy'') False])"
proof -
  have w: "\<forall>u\<in>set [sample_session 1 (str ''ann'') False]. \<not> broken (outputSink u)"
    by (simp add: sample_session_def)
  have b: "broken (outputSink (sample_session 2 (str ''bob'') True))"
    by (simp add: sample_session_def)
  have r: "rendered id (str ''hi'') (sample_session 1 (str ''ann'') False) (sample_session 1 (str ''ann'') False) = str ''> hi''"
    by (simp add: rendered_def str_def)
  from userBroadcast_stops_at_first_failure [OF w, of id "str ''hi''" "sample_session 1 (str ''ann'') False"
      "sample_session 2 (str ''bob'') True" "[sample_session 3 (str ''cy'') False]"] b r
  show ?thesis using w by (simp add: list_all_iff)
qed

text \<open>
  Claim C1, as stated, fails. With ann, bob and cy registered and bob's sink raising, a
  line sent by ann reaches her own sink only: the broadcast raises at bob, and cy, whose
  sink works, receives nothing.
\<close>

theorem userBroadcast_failure_not_isolated:
  "userBroadcast id (str ''hi'') (sample_session 1 (str ''ann'') False)
     [sample_session 1 (str ''ann'') False, sample_session 2 (str ''bob'') True, sample_session 3 (str ''cy'') False] =
   Throw [(sample_session 1 (str ''ann'') False)\<lparr>outputSink := \<lparr>entries = [str ''> hi''], broken = False\<rparr>\<rparr>,
          sample_session 2 (str ''bob'') True, sample_session 3 (str ''cy'') False]"
  by (simp add: userBroadcast_def sample_session_def add_def formatMessage_def str_def)

section \<open>Negotiation\<close>

lemma authentication_Accept:
  assumes "authentication lc us username method = Accept nick"
  shows "nick = username \<and> 0 < length nick \<and> length nick \<le> MAX_NAME_LEN \<and>
         \<not> in_use lc us (lc nick)"
  using assms by (auto simp: authentication_def challenge_def Let_def split: if_splits)

lemma retryPrompt_Accept:
  assumes "retryPrompt lc us answers = Accept nick"
  shows "0 < length nick \<and> length nick \<le> MAX_NAME_LEN \<and> \<not> in_use lc us (lc nick)"
  using assms by (auto simp: retryPrompt_def split: list.splits if_splits)

lemma accepted_by_length:
  assumes "accepted_by lc us n"
  shows "1 \<le> length n \<and> length n \<le> 10"
proof -
  from assms have "0 < length n \<and> length n \<le> MAX_NAME_LEN"
    unfolding accepted_by_def
    using authentication_Accept retryPrompt_Accept by blast
  then show ?thesis by (simp add: MAX_NAME_LEN_def Suc_le_eq)
qed

text \<open>
  Claim C9. Called with an empty list of answers, \<open>retryPrompt\<close> rejects with
  \<open>keyboard-interactive\<close> as the only allowed method and sends no prompt. Called with
  an empty string as the first answer, it prompts again with the message that a nickname
  is required.
\<close>

theorem retryPrompt_no_answers:
  "retryPrompt lc us [] = Reject [keyboard_interactive] \<and>
   retryPrompt lc us [[]] = Prompt prompt_required \<and>
   retryPrompt lc us ([] # others) = Prompt prompt_required \<and>
   prompt_required = str ''A nickname is required.'' @ [0x0A] @
     str ''Enter a nickname to use (max 10 chars): '' \<and>
   keyboard_interactive = str ''keyboard-interactive''"
  by (simp add: retryPrompt_def MAX_NAME_LEN_def prompt_required_def PROMPT_NAME_def
      keyboard_interactive_def decimal.simps str_def)

section \<open>The handlers\<close>

lemma localMessage_new_stream:
  "localMessage pt msg (new_stream c nm k) = Some (append_line (pt msg) (new_stream c nm k))"
  by (simp add: localMessage_def new_stream_def add_def formatMessage_def append_line_def)

lemma on_shell_idle:
  "cname (conns s c) = None \<or> cstream (conns s c) \<noteq> None \<Longrightarrow> on_shell pt c s = Normal s"
  by (auto simp: on_shell_def Let_def split: option.splits)

lemma on_shell_active:
  assumes "cname (conns s c) = Some nm" and "cstream (conns s c) = None"
  shows "on_shell pt c s =
     (case for_users (join_body pt c nm)
             (users s @ [append_line (pt (greeting (length (users s)))) (new_stream c nm (conns s c))]) of
        Throw us \<Rightarrow> Throw (set_conn c ((conns s c)\<lparr>cstream := Some c, cobject := Some (new_stream c nm (conns s c))\<rparr>) (s\<lparr>users := us\<rparr>))
      | Normal us \<Rightarrow>
          Normal (set_conn c ((conns s c)\<lparr>cstream := Some c, cobject := Some (new_stream c nm (conns s c)), cinput := True\<rparr>) (s\<lparr>users := us\<rparr>)))"
proof -
  have sid_new: "sid (append_line l (new_stream c nm k)) = c" for l k
    by (simp add: append_line_def new_stream_def)
  have body: "(\<lambda>user. if sid user = c then None else Some (joined pt nm user)) = join_body pt c nm"
    by (rule ext) (simp add: join_body_def)
  show ?thesis
    using assms
    by (simp add: on_shell_def Let_def new_stream_def [symmetric] localMessage_new_stream
        sid_new body)
qed

lemma on_shell_users:
  assumes "cname (conns s c) = Some nm" and "cstream (conns s c) = None"
  shows "users (state_of (on_shell pt c s)) =
     state_of (for_users (join_body pt c nm)
       (users s @ [append_line (pt (greeting (length (users s)))) (new_stream c nm (conns s c))]))"
  unfolding on_shell_active [OF assms]
  by (simp add: set_conn_def split: completion.splits)

lemma on_shell_conn:
  "\<exists>b. conns (state_of (on_shell pt c s)) =
     (if cname (conns s c) \<noteq> None \<and> cstream (conns s c) = None
      then (conns s)(c := (conns s c)\<lparr>cstream := Some c,
             cobject := Some (new_stream c (the (cname (conns s c))) (conns s c)), cinput := b\<rparr>)
      else conns s)"
proof (cases "cname (conns s c) \<noteq> None \<and> cstream (conns s c) = None")
  case False
  then have "on_shell pt c s = Normal s" by (auto intro: on_shell_idle)
  with False show ?thesis by auto
next
  case True
  then obtain nm where nm: "cname (conns s c) = Some nm" and st: "cstream (conns s c) = None"
    by auto
  let ?ob = "Some (new_stream c nm (conns s c))"
  show ?thesis
  proof (cases "for_users (join_body pt c nm)
      (users s @ [append_line (pt (greeting (length (users s)))) (new_stream c nm (conns s c))])")
    case (Normal us)
    with nm st have "conns (state_of (on_shell pt c s)) =
        (conns s)(c := (conns s c)\<lparr>cstream := Some c, cobject := ?ob, cinput := True\<rparr>)"
      by (simp add: on_shell_active set_conn_def)
    with True nm show ?thesis by (intro exI [of _ True]) simp
  next
    case (Throw us)
    with nm st have "conns (state_of (on_shell pt c s)) =
        (conns s)(c := (conns s c)\<lparr>cstream := Some c, cobject := ?ob, cinput := cinput (conns s c)\<rparr>)"
      by (simp add: on_shell_active set_conn_def)
    with True nm show ?thesis by (intro exI [of _ "cinput (conns s c)"]) simp
  qed
qed

lemma on_shell_last:
  assumes "cname (conns s c) = Some nm" and "cstream (conns s c) = None"
  shows "same_identity (new_stream c nm (conns s c)) (last (users (state_of (on_shell pt c s))))"
proof -
  let ?new = "append_line (pt (greeting (length (users s)))) (new_stream c nm (conns s c))"
  have "same_identity (last (users s @ [?new]))
      (last (state_of (for_users (join_body pt c nm) (users s @ [?new]))))"
    by (rule last_same_identity [OF for_users_same_identity]) simp
  then show ?thesis
    unfolding on_shell_users [OF assms]
    by (simp add: same_identity_def append_line_def)
qed

lemma on_shell_geometry:
  assumes "cname (conns s c) = Some nm" and "cstream (conns s c) = None"
  shows "rows (last (users (state_of (on_shell pt c s)))) = or_default (crows (conns s c)) 24"
    and "columns (last (users (state_of (on_shell pt c s)))) = or_default (ccols (conns s c)) 80"
  using on_shell_last [OF assms, of pt] by (simp_all add: same_identity_def new_stream_def)

lemma on_shell_ident:
  "map ident (users (state_of (on_shell pt c s))) =
     (case cname (conns s c) of
        None \<Rightarrow> map ident (users s)
      | Some nm \<Rightarrow> if cstream (conns s c) = None then map ident (users s) @ [(c, nm)]
                   else map ident (users s))"
proof (cases "cname (conns s c)")
  case None
  then show ?thesis by (simp add: on_shell_idle)
next
  case (Some nm)
  show ?thesis
  proof (cases "cstream (conns s c) = None")
    case False
    with Some show ?thesis by (simp add: on_shell_idle)
  next
    case True
    with Some show ?thesis
      by (simp add: on_shell_users for_users_ident) (simp add: ident_def append_line_def new_stream_def)
  qed
qed

lemma map_splice1: "map f (splice1 i xs) = splice1 i (map f xs)"
  by (simp add: splice1_def Let_def take_map drop_map)

lemma set_splice1: "set (splice1 i xs) \<subseteq> set xs"
proof -
  have "set (take n xs) \<union> set (drop m xs) \<subseteq> set xs" for n m
    using set_take_subset [of n xs] set_drop_subset [of m xs] by blast
  then show ?thesis by (simp add: splice1_def Let_def)
qed

lemma distinct_splice1: "distinct xs \<Longrightarrow> distinct (splice1 i xs)"
proof -
  assume d: "distinct xs"
  have "set (take n xs) \<inter> set (drop (n + 1) xs) = {}" for n
    using d by (intro set_take_disj_set_drop_if_distinct) simp_all
  with d show ?thesis by (simp add: splice1_def Let_def)
qed

lemma indexOf_absent: "i \<notin> sid ` set us \<Longrightarrow> indexOf us i = - 1"
  by (induction us) (simp_all add: Let_def)

lemma indexOf_present:
  "i \<in> sid ` set us \<Longrightarrow> 0 \<le> indexOf us i \<and> indexOf us i < int (length us)"
proof (induction us)
  case Nil
  then show ?case by simp
next
  case (Cons u us)
  show ?case
  proof (cases "sid u = i")
    case True
    then show ?thesis by simp
  next
    case False
    with Cons.prems have "i \<in> sid ` set us" by auto
    with Cons.IH have "0 \<le> indexOf us i \<and> indexOf us i < int (length us)" by simp
    with False show ?thesis by (simp add: Let_def)
  qed
qed

lemma splice1_first: "splice1 0 (x # xs) = xs"
  by (simp add: splice1_def)

lemma splice1_later: "0 \<le> j \<Longrightarrow> splice1 (j + 1) (x # xs) = x # splice1 j xs"
  by (simp add: splice1_def Let_def nat_add_distrib min_def)

lemma splice1_minus_one: "splice1 (- 1) xs = butlast xs"
proof (cases xs rule: rev_cases)
  case Nil
  then show ?thesis by (simp add: splice1_def)
next
  case (snoc ys y)
  then show ?thesis by (simp add: splice1_def Let_def)
qed

lemma splice1_indexOf_member:
  assumes "distinct (map sid us)" and "i \<in> sid ` set us"
  shows "splice1 (indexOf us i) us = filter (\<lambda>u. sid u \<noteq> i) us"
  using assms
proof (induction us)
  case Nil
  then show ?case by simp
next
  case (Cons u us)
  show ?case
  proof (cases "sid u = i")
    case True
    from Cons.prems(1) have "sid u \<notin> sid ` set us" by simp
    with True have "\<forall>v\<in>set us. sid v \<noteq> i" by (metis imageI)
    then have "filter (\<lambda>u. sid u \<noteq> i) us = us" by (simp add: filter_id_conv)
    with True show ?thesis by (simp add: splice1_first)
  next
    case False
    with Cons.prems have m: "i \<in> sid ` set us" and d: "distinct (map sid us)" by auto
    from m have "0 \<le> indexOf us i" using indexOf_present by blast
    then have "splice1 (indexOf us i + 1) (u # us) = u # splice1 (indexOf us i) us"
      by (rule splice1_later)
    moreover from m have "\<not> indexOf us i < 0" using indexOf_present by force
    ultimately show ?thesis
      using False Cons.IH [OF d m] by (simp add: Let_def)
  qed
qed

lemma on_close_users:
  "users (state_of (on_close pt c s)) =
     (case cstream (conns s c) of
        None \<Rightarrow> users s
      | Some i \<Rightarrow> state_of (for_users (\<lambda>user. Some (left pt (to_string (cname (conns s c))) user))
                    (splice1 (indexOf (users s) i) (users s))))"
  by (simp add: on_close_def Let_def put_users_simps split: option.splits)

lemma on_close_conns: "conns (state_of (on_close pt c s)) = conns s"
  by (simp add: on_close_def Let_def put_users_simps split: option.splits)

lemma on_close_ident:
  "map ident (users (state_of (on_close pt c s))) =
     (case cstream (conns s c) of
        None \<Rightarrow> map ident (users s)
      | Some i \<Rightarrow> splice1 (indexOf (users s) i) (map ident (users s)))"
  by (simp add: on_close_users for_users_ident map_splice1 split: option.splits)


lemma on_submit_ident: "map ident (users (state_of (on_submit pt c l s))) = map ident (users s)"
  by (simp add: on_submit_def Let_def set_conn_def userBroadcast_for_users put_users_simps
      for_users_ident split: option.splits)

lemma on_submit_conn:
  "\<exists>b. conns (state_of (on_submit pt c l s)) = (conns s)(c := (conns s c)\<lparr>cended := b\<rparr>)"
proof (cases "conns (state_of (on_submit pt c l s)) = conns s")
  case True
  then show ?thesis by (intro exI [of _ "cended (conns s c)"]) simp
next
  case False
  then have "conns (state_of (on_submit pt c l s)) = (conns s)(c := (conns s c)\<lparr>cended := True\<rparr>)"
    by (simp add: on_submit_def Let_def set_conn_def put_users_simps split: option.splits if_splits)
  then show ?thesis by blast
qed

lemma record_result_cname:
  "cname (record_result r k) = Some n \<Longrightarrow> cname k = Some n \<or> r = Accept n"
  by (cases r) (simp_all add: record_result_def)

lemma record_result_fields:
  "cstream (record_result r k) = cstream k"
  "crows (record_result r k) = crows k"
  "ccols (record_result r k) = ccols k"
  "cinput (record_result r k) = cinput k"
  by (cases r; simp add: record_result_def)+

lemma record_result_prompt:
  "cname (record_result r k) \<noteq> None \<Longrightarrow> cname k = None \<Longrightarrow> cprompt (record_result r k) = None"
  by (cases r) (simp_all add: record_result_def)

lemma step_users_unchanged:
  "users (on_authentication lc c username method s) = users s"
  "users (on_answers lc c answers s) = users s"
  "users (on_pty c r cl t s) = users s"
  by (simp_all add: on_authentication_def on_answers_def on_pty_def set_conn_def Let_def
      split: option.splits)

lemma on_window_change_ident: "map ident (users (on_window_change c r cl s)) = map ident (users s)"
  by (simp add: on_window_change_def set_conn_def Let_def resize_def ident_def
      split: option.splits)

lemma sink_fault_ident: "ident (sink_fault i b u) = ident u"
  by (simp add: sink_fault_def ident_def)

section \<open>Steps and runs\<close>

text \<open>
  What one event does to the identities in the registry and to the variables of a
  connection.
\<close>

lemma step_ident:
  "map ident (users (state_of (step pt lc s e))) = map ident (users s) \<or>
   (\<exists>c nm. e = Shell c \<and> cname (conns s c) = Some nm \<and> cstream (conns s c) = None \<and>
      map ident (users (state_of (step pt lc s e))) = map ident (users s) @ [(c, nm)]) \<or>
   (\<exists>c i. e = Close c \<and>
      map ident (users (state_of (step pt lc s e))) = splice1 i (map ident (users s)))"
proof (cases e)
  case (Shell c)
  then show ?thesis
    by (cases "cname (conns s c)"; cases "cstream (conns s c) = None")
      (simp_all add: on_shell_ident)
next
  case (Close c)
  then show ?thesis
    by (cases "cstream (conns s c)") (auto simp: on_close_ident)
qed (simp_all add: step_users_unchanged on_window_change_ident on_submit_ident sink_fault_ident)

lemma step_cname:
  assumes "cname (conns (state_of (step pt lc s e)) c) = Some n"
  shows "cname (conns s c) = Some n \<or> accepted_by lc (users s) n"
proof (cases e)
  case (Authentication c' username meth)
  with assms show ?thesis
    by (auto simp: on_authentication_def set_conn_def accepted_by_def
        split: option.splits if_splits dest!: record_result_cname)
next
  case (Answers c' answers)
  with assms show ?thesis
    by (auto simp: on_answers_def set_conn_def accepted_by_def
        split: option.splits if_splits dest!: record_result_cname)
next
  case (Pty c' r cl t)
  with assms show ?thesis
    by (auto simp: on_pty_def set_conn_def Let_def split: if_splits)
next
  case (WindowChange c' r cl)
  with assms show ?thesis
    by (auto simp: on_window_change_def set_conn_def Let_def split: if_splits option.splits)
next
  case (Shell c')
  obtain b where "conns (state_of (on_shell pt c' s)) =
     (if cname (conns s c') \<noteq> None \<and> cstream (conns s c') = None
      then (conns s)(c' := (conns s c')\<lparr>cstream := Some c',
             cobject := Some (new_stream c' (the (cname (conns s c'))) (conns s c')), cinput := b\<rparr>)
      else conns s)"
    using on_shell_conn by blast
  with assms Shell show ?thesis by (auto split: if_splits)
next
  case (Submit c' l)
  obtain b where "conns (state_of (on_submit pt c' l s)) = (conns s)(c' := (conns s c')\<lparr>cended := b\<rparr>)"
    using on_submit_conn by blast
  with assms Submit show ?thesis by (auto split: if_splits)
next
  case (Close c')
  with assms show ?thesis by (simp add: on_close_conns)
next
  case (SinkFault i b)
  with assms show ?thesis by simp
qed

lemma step_settled_conn:
  assumes "cname (conns s c) = Some n" and "cprompt (conns s c) = None"
  shows "cname (conns (state_of (step pt lc s e)) c) = Some n \<and>
         cprompt (conns (state_of (step pt lc s e)) c) = None \<and>
         (cstream (conns s c) = Some i \<longrightarrow>
            cstream (conns (state_of (step pt lc s e)) c) = Some i \<and>
            cobject (conns (state_of (step pt lc s e)) c) = cobject (conns s c))"
proof (cases e)
  case (Authentication c' username meth)
  with assms show ?thesis
    by (auto simp: on_authentication_def set_conn_def split: option.splits)
next
  case (Answers c' answers)
  with assms show ?thesis
    by (auto simp: on_answers_def set_conn_def split: option.splits)
next
  case (Pty c' r cl t)
  with assms show ?thesis by (auto simp: on_pty_def set_conn_def Let_def)
next
  case (WindowChange c' r cl)
  with assms show ?thesis
    by (auto simp: on_window_change_def set_conn_def Let_def split: option.splits)
next
  case (Shell c')
  obtain b where "conns (state_of (on_shell pt c' s)) =
     (if cname (conns s c') \<noteq> None \<and> cstream (conns s c') = None
      then (conns s)(c' := (conns s c')\<lparr>cstream := Some c',
             cobject := Some (new_stream c' (the (cname (conns s c'))) (conns s c')), cinput := b\<rparr>)
      else conns s)"
    using on_shell_conn by blast
  with Shell assms show ?thesis by auto
next
  case (Submit c' l)
  obtain b where "conns (state_of (on_submit pt c' l s)) = (conns s)(c' := (conns s c')\<lparr>cended := b\<rparr>)"
    using on_submit_conn by blast
  with Submit assms show ?thesis by auto
next
  case (Close c')
  with assms show ?thesis by (simp add: on_close_conns)
next
  case (SinkFault i b)
  with assms show ?thesis by simp
qed

lemma step_prompt:
  assumes "cname (conns s c) = None" and "cname (conns (state_of (step pt lc s e)) c) \<noteq> None"
  shows "cprompt (conns (state_of (step pt lc s e)) c) = None"
proof (cases e)
  case (Authentication c' username meth)
  with assms show ?thesis
    by (auto simp: on_authentication_def set_conn_def record_result_prompt split: option.splits if_splits)
next
  case (Answers c' answers)
  with assms show ?thesis
    by (auto simp: on_answers_def set_conn_def record_result_prompt split: option.splits if_splits)
next
  case (Pty c' r cl t)
  with assms show ?thesis by (auto simp: on_pty_def set_conn_def Let_def split: if_splits)
next
  case (WindowChange c' r cl)
  with assms show ?thesis
    by (auto simp: on_window_change_def set_conn_def Let_def split: option.splits if_splits)
next
  case (Shell c')
  obtain b where "conns (state_of (on_shell pt c' s)) =
     (if cname (conns s c') \<noteq> None \<and> cstream (conns s c') = None
      then (conns s)(c' := (conns s c')\<lparr>cstream := Some c',
             cobject := Some (new_stream c' (the (cname (conns s c'))) (conns s c')), cinput := b\<rparr>)
      else conns s)"
    using on_shell_conn by blast
  with Shell assms show ?thesis by (auto split: if_splits)
next
  case (Submit c' l)
  obtain b where "conns (state_of (on_submit pt c' l s)) = (conns s)(c' := (conns s c')\<lparr>cended := b\<rparr>)"
    using on_submit_conn by blast
  with Submit assms show ?thesis by (auto split: if_splits)
next
  case (Close c')
  with assms show ?thesis by (simp add: on_close_conns)
next
  case (SinkFault i b)
  with assms show ?thesis by simp
qed

lemma step_geometry_vars:
  assumes "\<not> geometry_event c e"
  shows "crows (conns (state_of (step pt lc s e)) c) = crows (conns s c) \<and>
         ccols (conns (state_of (step pt lc s e)) c) = ccols (conns s c)"
proof (cases e)
  case (Authentication c' username meth)
  then show ?thesis
    by (simp add: on_authentication_def set_conn_def record_result_fields split: option.splits)
next
  case (Answers c' answers)
  then show ?thesis
    by (simp add: on_answers_def set_conn_def record_result_fields split: option.splits)
next
  case (Pty c' r cl t)
  with assms show ?thesis by (simp add: on_pty_def set_conn_def Let_def)
next
  case (WindowChange c' r cl)
  with assms show ?thesis
    by (simp add: on_window_change_def set_conn_def Let_def split: option.splits)
next
  case (Shell c')
  obtain b where "conns (state_of (on_shell pt c' s)) =
     (if cname (conns s c') \<noteq> None \<and> cstream (conns s c') = None
      then (conns s)(c' := (conns s c')\<lparr>cstream := Some c',
             cobject := Some (new_stream c' (the (cname (conns s c'))) (conns s c')), cinput := b\<rparr>)
      else conns s)"
    using on_shell_conn by blast
  with Shell show ?thesis by simp
next
  case (Submit c' l)
  obtain b where "conns (state_of (on_submit pt c' l s)) = (conns s)(c' := (conns s c')\<lparr>cended := b\<rparr>)"
    using on_submit_conn by blast
  with Submit show ?thesis by simp
next
  case (Close c')
  then show ?thesis by (simp add: on_close_conns)
next
  case (SinkFault i b)
  then show ?thesis by simp
qed

lemma run_geometry_vars:
  "\<forall>e\<in>set evs. \<not> geometry_event c e \<Longrightarrow>
     crows (conns (run pt lc s evs) c) = crows (conns s c) \<and>
     ccols (conns (run pt lc s evs) c) = ccols (conns s c)"
  by (induction evs arbitrary: s) (simp_all add: step_geometry_vars)

text \<open>
  The registry of every reachable state is well formed.
\<close>

lemma conns_ok_step:
  assumes "conns_ok s"
  shows "conns_ok (state_of (step pt lc s e))"
  unfolding conns_ok_def
proof (intro allI impI)
  fix c
  assume a: "cname (conns (state_of (step pt lc s e)) c) \<noteq> None"
  show "cprompt (conns (state_of (step pt lc s e)) c) = None"
  proof (cases "cname (conns s c)")
    case None
    then show ?thesis using a by (rule step_prompt)
  next
    case (Some n)
    with assms have "cprompt (conns s c) = None" by (simp add: conns_ok_def)
    with Some show ?thesis using step_settled_conn by blast
  qed
qed

lemma registry_ok_ident:
  "registry_ok s \<longleftrightarrow>
     distinct (map fst (map ident (users s))) \<and>
     (\<forall>p\<in>set (map ident (users s)).
        cstream (conns s (fst p)) = Some (fst p) \<and> cname (conns s (fst p)) = Some (snd p) \<and>
        map_option ident (cobject (conns s (fst p))) = Some p)"
  by (simp add: registry_ok_def ident_def comp_def)

lemma registry_ok_step:
  assumes r: "registry_ok s" and k: "conns_ok s"
  shows "registry_ok (state_of (step pt lc s e))"
proof -
  let ?s' = "state_of (step pt lc s e)"
  let ?I = "map ident (users s)"
  let ?ok = "\<lambda>t p. cstream (conns t (fst p)) = Some (fst p) \<and> cname (conns t (fst p)) = Some (snd p) \<and>
      map_option ident (cobject (conns t (fst p))) = Some p"
  from r have d: "distinct (map fst ?I)"
    and m: "\<And>p. p \<in> set ?I \<Longrightarrow> ?ok s p"
    by (simp_all only: registry_ok_ident)
  have old: "?ok ?s' p" if "p \<in> set ?I" for p
  proof -
    from m [OF that] have 1: "cstream (conns s (fst p)) = Some (fst p)"
      and 2: "cname (conns s (fst p)) = Some (snd p)"
      and 4: "map_option ident (cobject (conns s (fst p))) = Some p" by simp_all
    from 2 k have 3: "cprompt (conns s (fst p)) = None" by (simp add: conns_ok_def)
    from step_settled_conn [OF 2 3, of pt lc e "fst p"] 1 4 show ?thesis by simp
  qed
  from step_ident [of pt lc s e]
  have "distinct (map fst (map ident (users ?s'))) \<and>
     (\<forall>p\<in>set (map ident (users ?s')). ?ok ?s' p)"
  proof (elim disjE exE conjE)
    assume "map ident (users ?s') = ?I"
    with d old show ?thesis by simp
  next
    fix c nm
    assume e: "e = Shell c" and nm: "cname (conns s c) = Some nm"
      and st: "cstream (conns s c) = None"
      and u: "map ident (users ?s') = ?I @ [(c, nm)]"
    have "c \<notin> set (map fst ?I)"
    proof
      assume "c \<in> set (map fst ?I)"
      then have "\<exists>p\<in>set ?I. fst p = c" by (simp only: set_map) blast
      then obtain p where "p \<in> set ?I" "fst p = c" ..
      with m [of p] st show False by simp
    qed
    moreover obtain b where "conns (state_of (on_shell pt c s)) =
       (if cname (conns s c) \<noteq> None \<and> cstream (conns s c) = None
        then (conns s)(c := (conns s c)\<lparr>cstream := Some c,
               cobject := Some (new_stream c (the (cname (conns s c))) (conns s c)), cinput := b\<rparr>)
        else conns s)"
      using on_shell_conn by blast
    with e nm st have "?ok ?s' (c, nm)"
      by (simp add: ident_def new_stream_def)
    ultimately show ?thesis using d old u by auto
  next
    fix c i
    assume u: "map ident (users ?s') = splice1 i ?I"
    then have "map fst (map ident (users ?s')) = splice1 i (map fst ?I)"
      by (simp only: map_splice1)
    with d have "distinct (map fst (map ident (users ?s')))"
      by (simp only: distinct_splice1)
    moreover have "set (map ident (users ?s')) \<subseteq> set ?I"
      unfolding u by (rule set_splice1)
    ultimately show ?thesis using old by blast
  qed
  then show ?thesis unfolding registry_ok_ident .
qed

lemma registry_ok_run:
  "registry_ok s \<Longrightarrow> conns_ok s \<Longrightarrow> registry_ok (run pt lc s evs) \<and> conns_ok (run pt lc s evs)"
  by (induction evs arbitrary: s) (simp_all add: registry_ok_step conns_ok_step)

lemma registry_ok_reachable: "registry_ok (run pt lc init evs)"
proof -
  have "registry_ok init" "conns_ok init"
    by (simp_all add: registry_ok_def conns_ok_def init_def fresh_conn_def)
  then show ?thesis using registry_ok_run by blast
qed

lemma name_in_ident: "u \<in> set us \<Longrightarrow> (sid u, name u) \<in> set (map ident us)"
  by (auto simp: ident_def)

lemma ident_in_users: "(i, n) \<in> set (map ident us) \<Longrightarrow> \<exists>u\<in>set us. sid u = i \<and> name u = n"
  by (auto simp: ident_def)

lemma name_inv_step:
  assumes "name_inv s"
  shows "name_inv (state_of (step pt lc s e))"
proof -
  let ?s' = "state_of (step pt lc s e)"
  have "1 \<le> length (name u) \<and> length (name u) \<le> 10" if u: "u \<in> set (users ?s')" for u
  proof -
    from u have m: "(sid u, name u) \<in> set (map ident (users ?s'))" by (rule name_in_ident)
    from step_ident [of pt lc s e]
    have "(sid u, name u) \<in> set (map ident (users s)) \<or>
          (\<exists>c. cname (conns s c) = Some (name u))"
    proof (elim disjE exE conjE)
      assume "map ident (users ?s') = map ident (users s)"
      with m show ?thesis by simp
    next
      fix c nm
      assume "cname (conns s c) = Some nm"
        and "map ident (users ?s') = map ident (users s) @ [(c, nm)]"
      with m show ?thesis by auto
    next
      fix c i
      assume "map ident (users ?s') = splice1 i (map ident (users s))"
      with m set_splice1 [of i "map ident (users s)"] show ?thesis by auto
    qed
    then show ?thesis
    proof
      assume "(sid u, name u) \<in> set (map ident (users s))"
      then obtain v where "v \<in> set (users s)" "name v = name u"
        using ident_in_users by blast
      with assms show ?thesis by (auto simp: name_inv_def)
    next
      assume "\<exists>c. cname (conns s c) = Some (name u)"
      with assms show ?thesis by (auto simp: name_inv_def)
    qed
  qed
  moreover have "1 \<le> length n \<and> length n \<le> 10" if "cname (conns ?s' c) = Some n" for c n
    using step_cname [OF that] assms accepted_by_length [of lc "users s" n]
    by (auto simp: name_inv_def)
  ultimately show ?thesis by (simp add: name_inv_def)
qed

lemma name_inv_run: "name_inv s \<Longrightarrow> name_inv (run pt lc s evs)"
  by (induction evs arbitrary: s) (simp_all add: name_inv_step)

lemma name_inv_init: "name_inv init"
  by (simp add: name_inv_def init_def fresh_conn_def)

lemma in_use_iff: "in_use lc us l \<longleftrightarrow> l \<in> set (map (\<lambda>p. lc (snd p)) (map ident us))"
  by (auto simp: in_use_def list_ex_iff ident_def)

lemma names_distinct_ident: "names_distinct lc us \<longleftrightarrow> distinct (map (\<lambda>p. lc (snd p)) (map ident us))"
  by (simp add: names_distinct_def ident_def comp_def)

lemma names_distinct_step:
  assumes "names_distinct lc (users s)" and "fresh_at_join lc s e"
  shows "names_distinct lc (users (state_of (step pt lc s e)))"
proof -
  let ?s' = "state_of (step pt lc s e)"
  let ?f = "\<lambda>p :: nat \<times> jsstring. lc (snd p)"
  from assms(1) have d: "distinct (map ?f (map ident (users s)))"
    by (simp only: names_distinct_ident)
  from step_ident [of pt lc s e]
  have "distinct (map ?f (map ident (users ?s')))"
  proof (elim disjE exE conjE)
    assume "map ident (users ?s') = map ident (users s)"
    with d show ?thesis by simp
  next
    fix c nm
    assume e: "e = Shell c" and nm: "cname (conns s c) = Some nm"
      and u: "map ident (users ?s') = map ident (users s) @ [(c, nm)]"
    from assms(2) e nm have "lc nm \<notin> set (map ?f (map ident (users s)))"
      by (simp add: in_use_iff)
    with d u show ?thesis by simp
  next
    fix c i
    assume "map ident (users ?s') = splice1 i (map ident (users s))"
    then have "map ?f (map ident (users ?s')) = splice1 i (map ?f (map ident (users s)))"
      by (simp only: map_splice1)
    with d show ?thesis by (simp only: distinct_splice1)
  qed
  then show ?thesis by (simp only: names_distinct_ident)
qed

lemma names_distinct_run:
  "names_distinct lc (users s) \<Longrightarrow> fresh_joins pt lc s evs \<Longrightarrow>
     names_distinct lc (users (run pt lc s evs))"
  by (induction evs arbitrary: s) (simp_all add: names_distinct_step)

section \<open>Nicknames\<close>

text \<open>
  A session that is registered right after its name has been accepted is registered
  while that name is still unused.
\<close>

lemma fresh_right_after_authentication:
  assumes "cname (conns s c) = None"
    and "authentication lc (users s) username meth = Accept nick"
  shows "fresh_at_join lc (on_authentication lc c username meth s) (Shell c)"
proof -
  from assms(2) have "\<not> in_use lc (users s) (lc nick)"
    using authentication_Accept by blast
  with assms show ?thesis
    by (simp add: on_authentication_def set_conn_def record_result_def)
qed

lemma fresh_right_after_answers:
  assumes "cprompt (conns s c) = Some text"
    and "retryPrompt lc (users s) answers = Accept nick"
  shows "fresh_at_join lc (on_answers lc c answers s) (Shell c)"
proof -
  from assms(2) have "\<not> in_use lc (users s) (lc nick)"
    using retryPrompt_Accept by blast
  with assms show ?thesis
    by (simp add: on_answers_def set_conn_def record_result_def)
qed

text \<open>
  Claim C5, as the code has it. The negotiator accepts a nickname only if its lowered
  form differs from the lowered name of every member at the moment of the check, both
  for the initial candidate and for an answer to a prompt. The members' names are
  pairwise distinct under that comparison in every state reached by a run in which each
  session's name is still unused when the session is registered; nothing in the code
  checks the name again at registration, and unregistration keeps the names distinct.
\<close>

theorem nicknames_distinct_when_fresh_at_join:
  "(authentication lc us username method = Accept nick \<longrightarrow>
      lc nick \<notin> (\<lambda>u. lc (name u)) ` set us) \<and>
   (retryPrompt lc us answers = Accept nick \<longrightarrow> lc nick \<notin> (\<lambda>u. lc (name u)) ` set us) \<and>
   (fresh_joins pt lc init evs \<longrightarrow> names_distinct lc (users (run pt lc init evs)))"
proof (intro conjI impI)
  assume "authentication lc us username method = Accept nick"
  then have "\<not> in_use lc us (lc nick)" using authentication_Accept by blast
  then show "lc nick \<notin> (\<lambda>u. lc (name u)) ` set us"
    by (auto simp: in_use_def list_ex_iff)
next
  assume "retryPrompt lc us answers = Accept nick"
  then have "\<not> in_use lc us (lc nick)" using retryPrompt_Accept by blast
  then show "lc nick \<notin> (\<lambda>u. lc (name u)) ` set us"
    by (auto simp: in_use_def list_ex_iff)
next
  assume "fresh_joins pt lc init evs"
  moreover have "names_distinct lc (users init)"
    by (simp add: names_distinct_def init_def)
  ultimately show "names_distinct lc (users (run pt lc init evs))"
    by (rule names_distinct_run [rotated])
qed

theorem nicknames_distinct_when_fresh_at_join_witness:
  "authentication lc_ascii [sample_session 1 (str ''bob'') False] (str ''Ann'') (str ''none'') =
     Accept (str ''Ann'') \<and>
   retryPrompt lc_ascii [sample_session 1 (str ''bob'') False] [str ''Ann''] = Accept (str ''Ann'') \<and>
   lc_ascii (str ''Ann'') \<notin> (\<lambda>u. lc_ascii (name u)) ` set [sample_session 1 (str ''bob'') False] \<and>
   fresh_joins id lc_ascii init
     [Authentication 1 (str ''Ann'') (str ''none''), Shell 1,
      Authentication 2 (str ''ann'') (str ''keyboard-interactive''),
      Answers 2 [str ''bob''], Shell 2] \<and>
   map name (users (run id lc_ascii init
     [Authentication 1 (str ''Ann'') (str ''none''), Shell 1,
      Authentication 2 (str ''ann'') (str ''keyboard-interactive''),
      Answers 2 [str ''bob''], Shell 2])) = [str ''Ann'', str ''bob''] \<and>
   names_distinct lc_ascii (users (run id lc_ascii init
     [Authentication 1 (str ''Ann'') (str ''none''), Shell 1,
      Authentication 2 (str ''ann'') (str ''keyboard-interactive''),
      Answers 2 [str ''bob''], Shell 2]))"
proof -
  have 1: "authentication lc_ascii [sample_session 1 (str ''bob'') False] (str ''Ann'') (str ''none'') =
     Accept (str ''Ann'')"
    by code_simp
  have 2: "retryPrompt lc_ascii [sample_session 1 (str ''bob'') False] [str ''Ann''] = Accept (str ''Ann'')"
    by code_simp
  have 3: "fresh_joins id lc_ascii init
     [Authentication 1 (str ''Ann'') (str ''none''), Shell 1,
      Authentication 2 (str ''ann'') (str ''keyboard-interactive''),
      Answers 2 [str ''bob''], Shell 2]"
    by code_simp
  have 4: "map name (users (run id lc_ascii init
     [Authentication 1 (str ''Ann'') (str ''none''), Shell 1,
      Authentication 2 (str ''ann'') (str ''keyboard-interactive''),
      Answers 2 [str ''bob''], Shell 2])) = [str ''Ann'', str ''bob'']"
    by code_simp
  from nicknames_distinct_when_fresh_at_join [of lc_ascii "[sample_session 1 (str ''bob'') False]"
      "str ''Ann''" "str ''none''" "str ''Ann''" "[str ''Ann'']" id
      "[Authentication 1 (str ''Ann'') (str ''none''), Shell 1,
        Authentication 2 (str ''ann'') (str ''keyboard-interactive''),
        Answers 2 [str ''bob''], Shell 2]"] 1 2 3 4
  show ?thesis by simp
qed

text \<open>
  Claim C5, as stated, fails. Two connections are accepted as Alice and alice while the
  registry is empty, and both are registered afterwards.
\<close>

theorem duplicate_nicknames_reachable:
  "map name (users (run id lc_ascii init
     [Authentication 1 (str ''Alice'') (str ''none''),
      Authentication 2 (str ''alice'') (str ''none''), Shell 1, Shell 2])) =
     [str ''Alice'', str ''alice''] \<and>
   \<not> names_distinct lc_ascii (users (run id lc_ascii init
     [Authentication 1 (str ''Alice'') (str ''none''),
      Authentication 2 (str ''alice'') (str ''none''), Shell 1, Shell 2]))"
  by code_simp

text \<open>
  Claim C6. A nickname accepted by the \<open>authentication\<close> handler or by
  \<open>retryPrompt\<close> has between 1 and 10 code units, and in every state reached from the
  initial one by any sequence of events every member's name has between 1 and 10 code
  units.
\<close>

theorem accepted_nickname_length:
  "(authentication lc us username method = Accept nick \<longrightarrow>
      1 \<le> length nick \<and> length nick \<le> 10) \<and>
   (retryPrompt lc us answers = Accept nick \<longrightarrow> 1 \<le> length nick \<and> length nick \<le> 10) \<and>
   (\<forall>u\<in>set (users (run pt lc init evs)). 1 \<le> length (name u) \<and> length (name u) \<le> 10)"
proof (intro conjI impI)
  assume "authentication lc us username method = Accept nick"
  then have "accepted_by lc us nick" by (auto simp: accepted_by_def)
  then show "1 \<le> length nick" "length nick \<le> 10"
    using accepted_by_length by blast+
next
  assume "retryPrompt lc us answers = Accept nick"
  then have "accepted_by lc us nick" by (auto simp: accepted_by_def)
  then show "1 \<le> length nick" "length nick \<le> 10"
    using accepted_by_length by blast+
next
  have "name_inv (run pt lc init evs)"
    by (rule name_inv_run [OF name_inv_init])
  then show "\<forall>u\<in>set (users (run pt lc init evs)). 1 \<le> length (name u) \<and> length (name u) \<le> 10"
    by (simp add: name_inv_def)
qed

theorem accepted_nickname_length_witness:
  "authentication lc_ascii [] (str ''ab'') (str ''none'') = Accept (str ''ab'') \<and>
   retryPrompt lc_ascii [] [str ''ab''] = Accept (str ''ab'') \<and>
   1 \<le> length (str ''ab'') \<and> length (str ''ab'') \<le> 10 \<and>
   map name (users (run id lc_ascii init
     [Authentication 1 (str ''ab'') (str ''none''), Shell 1])) = [str ''ab''] \<and>
   list_all (\<lambda>u. 1 \<le> length (name u) \<and> length (name u) \<le> 10)
     (users (run id lc_ascii init [Authentication 1 (str ''ab'') (str ''none''), Shell 1]))"
proof -
  have 1: "authentication lc_ascii [] (str ''ab'') (str ''none'') = Accept (str ''ab'')"
    by code_simp
  have 2: "retryPrompt lc_ascii [] [str ''ab''] = Accept (str ''ab'')"
    by code_simp
  have 3: "map name (users (run id lc_ascii init
     [Authentication 1 (str ''ab'') (str ''none''), Shell 1])) = [str ''ab'']"
    by code_simp
  from accepted_nickname_length [of lc_ascii "[]" "str ''ab''" "str ''none''" "str ''ab''"
      "[str ''ab'']" id "[Authentication 1 (str ''ab'') (str ''none''), Shell 1]"] 1 2 3
  show ?thesis by (simp add: list_all_iff)
qed

section \<open>Closing a connection\<close>










section \<open>Joining and leaving\<close>













text \<open>
  Claim C8, as the code has it. A member of a well-formed state submits a line that
  sanitizes to \<open>/quit\<close> or \<open>/exit\<close>. The \<open>submit\<close> handler ends the stream and leaves the
  registry and every log as they are, so the line is not broadcast. The \<open>close\<close> handler
  of that connection, which the transport runs when the connection has closed, removes
  exactly that session from the registry and then writes the left notice with the
  session's name to the remaining members in registry order, with nothing catching an
  error of a write: when none of their sinks raises, the handler ends normally and every
  remaining member has exactly the notice appended; at the first remaining member whose
  sink raises it ends with that error, the members before that one have the notice, and
  that member and every one after it have nothing new.
\<close>

theorem quit_then_close:
  assumes "registry_ok s" and "S \<in> set (users s)" and "cinput (conns s (sid S))"
    and "sanitize line = str ''/quit'' \<or> sanitize line = str ''/exit''"
    and "s1 = set_conn (sid S) ((conns s (sid S))\<lparr>cended := True\<rparr>) s"
  shows "on_submit pt (sid S) line s = Normal s1 \<and> users s1 = users s \<and>
     cended (conns s1 (sid S)) \<and>
     map sid (users (state_of (on_close pt (sid S) s1))) =
       filter (\<lambda>i. i \<noteq> sid S) (map sid (users s)) \<and>
     ((\<forall>u\<in>set (users s). sid u \<noteq> sid S \<longrightarrow> \<not> broken (outputSink u)) \<longrightarrow>
        on_close pt (sid S) s1 =
          Normal (s1\<lparr>users :=
            map (append_line (pt (str ''{magenta-fg}*** {bold}'') @ name S @
                              pt (str ''{/bold} has left the chat{/}'')))
              (filter (\<lambda>u. sid u \<noteq> sid S) (users s))\<rparr>)) \<and>
     (filter (\<lambda>u. sid u \<noteq> sid S) (users s) = pre @ f # post \<and>
      (\<forall>u\<in>set pre. \<not> broken (outputSink u)) \<and> broken (outputSink f) \<longrightarrow>
        on_close pt (sid S) s1 =
          Throw (s1\<lparr>users :=
            map (append_line (pt (str ''{magenta-fg}*** {bold}'') @ name S @
                              pt (str ''{/bold} has left the chat{/}''))) pre @ f # post\<rparr>))"
proof -
  let ?c = "sid S"
  let ?L = "pt (str ''{magenta-fg}*** {bold}'') @ name S @ pt (str ''{/bold} has left the chat{/}'')"
  let ?body = "\<lambda>user. Some (left pt (to_string (cname (conns s1 ?c))) user)"
  let ?rest = "filter (\<lambda>u. sid u \<noteq> ?c) (users s)"
  from assms(1,2) have st: "cstream (conns s ?c) = Some ?c" and nm: "cname (conns s ?c) = Some (name S)"
    and ob: "cobject (conns s ?c) \<noteq> None" and d: "distinct (map sid (users s))"
    by (auto simp: registry_ok_def)
  from assms(4) have ne: "length (sanitize line) > 0" and q: "is_quit (sanitize line)"
    by (auto simp: is_quit_def str_def)
  have 1: "on_submit pt ?c line s = Normal s1"
    using assms(3) ne q ob unfolding assms(5)
    by (auto simp: on_submit_def Let_def)
  have 2: "users s1 = users s" by (simp add: assms(5) set_conn_def)
  have c1: "conns s1 ?c = (conns s ?c)\<lparr>cended := True\<rparr>" by (simp add: assms(5) set_conn_def)
  then have 3: "cended (conns s1 ?c)" by simp
  have sp: "splice1 (indexOf (users s) ?c) (users s) = ?rest"
    using d assms(2) by (intro splice1_indexOf_member) auto
  have cl: "on_close pt ?c s1 = put_users s1 (for_users ?body ?rest)"
    by (simp add: on_close_def Let_def c1 2 st sp)
  have bd: "deliver ?body = append_line ?L"
    by (rule ext) (simp add: deliver_def c1 nm to_string_def left_def formatMessage_def)
  have "map sid (users (state_of (on_close pt ?c s1))) = map sid ?rest"
    unfolding cl by (simp add: put_users_simps for_users_keeps)
  also have "\<dots> = filter (\<lambda>i. i \<noteq> ?c) (map sid (users s))"
    by (simp add: filter_map comp_def)
  finally have 4: "map sid (users (state_of (on_close pt ?c s1))) =
      filter (\<lambda>i. i \<noteq> ?c) (map sid (users s))" .
  have 5: "on_close pt ?c s1 = Normal (s1\<lparr>users := map (append_line ?L) ?rest\<rparr>)"
    if w: "\<forall>u\<in>set (users s). sid u \<noteq> ?c \<longrightarrow> \<not> broken (outputSink u)"
  proof -
    from w have "\<forall>u\<in>set ?rest. \<not> broken (outputSink u)" by simp
    then have "for_users ?body ?rest = Normal (map (deliver ?body) ?rest)"
      by (rule for_users_working)
    then show ?thesis unfolding cl by (simp add: bd)
  qed
  have 6: "on_close pt ?c s1 = Throw (s1\<lparr>users := map (append_line ?L) pre @ f # post\<rparr>)"
    if p: "?rest = pre @ f # post \<and> (\<forall>u\<in>set pre. \<not> broken (outputSink u)) \<and>
      broken (outputSink f)"
  proof -
    from p have pre: "\<forall>u\<in>set pre. \<not> broken (outputSink u)" and f: "broken (outputSink f)"
      and u: "?rest = pre @ f # post" by simp_all
    have fb: "?body f \<noteq> None" by simp
    have "for_users ?body (pre @ f # post) = Throw (map (deliver ?body) pre @ f # post)"
      using pre f fb by (rule for_users_first_failure [of pre f ?body post])
    then show ?thesis unfolding cl u by (simp add: bd)
  qed
  from 1 2 3 4 5 6 show ?thesis by blast
qed

theorem quit_then_close_witness:
  "registry_ok bob_raising \<and> map sid (users bob_raising) = [1, 2, 3] \<and>
   map (\<lambda>u. broken (outputSink u)) (users bob_raising) = [False, True, False] \<and>
   cinput (conns bob_raising 1) \<and> sanitize (str '' /quit '') = str ''/quit'' \<and>
   \<not> raised (on_submit id 1 (str '' /quit '') bob_raising) \<and>
   users (state_of (on_submit id 1 (str '' /quit '') bob_raising)) = users bob_raising \<and>
   raised (on_close id 1 (state_of (on_submit id 1 (str '' /quit '') bob_raising))) \<and>
   users (state_of (on_close id 1 (state_of (on_submit id 1 (str '' /quit '') bob_raising)))) =
     drop 1 (users bob_raising) \<and>
   registry_ok ann_and_bob \<and> map sid (users ann_and_bob) = [1, 2] \<and>
   list_all (\<lambda>u. \<not> broken (outputSink u)) (users ann_and_bob) \<and>
   cinput (conns ann_and_bob 2) \<and> sanitize (str ''/exit'') = str ''/exit'' \<and>
   \<not> raised (on_close id 2 (state_of (on_submit id 2 (str ''/exit'') ann_and_bob))) \<and>
   users (state_of (on_close id 2 (state_of (on_submit id 2 (str ''/exit'') ann_and_bob)))) =
     map (append_line (str ''{magenta-fg}*** {bold}'' @ str ''bob'' @
                       str ''{/bold} has left the chat{/}'')) (take 1 (users ann_and_bob))"
proof -
  have 1: "registry_ok bob_raising" by code_simp
  have 2: "map sid (users bob_raising) = [1, 2, 3]" by code_simp
  have 3: "map (\<lambda>u. broken (outputSink u)) (users bob_raising) = [False, True, False]"
    by code_simp
  have 4: "cinput (conns bob_raising 1)" by code_simp
  have 5: "sanitize (str '' /quit '') = str ''/quit''" by code_simp
  from 2 have "length (users bob_raising) = 3"
    by (metis length_map length_Cons list.size(3) numeral_3_eq_3)
  then obtain a b c where u: "users bob_raising = [a, b, c]"
    by (metis length_0_conv length_Suc_conv numeral_3_eq_3)
  with 2 3 have ids: "sid a = 1" "sid b = 2" "sid c = 3" and br: "broken (outputSink b)"
    by simp_all
  from u have m: "a \<in> set (users bob_raising)" by simp
  from 4 ids have ci: "cinput (conns bob_raising (sid a))" by simp
  from 5 have q: "sanitize (str '' /quit '') = str ''/quit'' \<or> sanitize (str '' /quit '') = str ''/exit''"
    by simp
  have split: "filter (\<lambda>u. sid u \<noteq> sid a) (users bob_raising) = [] @ b # [c] \<and>
      (\<forall>u\<in>set []. \<not> broken (outputSink u)) \<and> broken (outputSink b)"
    using u ids br by simp
  note t1 = quit_then_close [OF 1 m ci q refl, of id "[]" b "[c]"]
  have 6: "registry_ok ann_and_bob" by code_simp
  have 7: "map sid (users ann_and_bob) = [1, 2]" by code_simp
  have 8: "\<forall>u\<in>set (users ann_and_bob). \<not> broken (outputSink u)" by code_simp
  have 9: "cinput (conns ann_and_bob 2)" by code_simp
  have 10: "sanitize (str ''/exit'') = str ''/exit''" by code_simp
  have 11: "map name (users ann_and_bob) = [str ''ann'', str ''bob'']" by code_simp
  from 7 have "length (users ann_and_bob) = 2"
    by (metis length_map length_Cons list.size(3) numeral_2_eq_2)
  then obtain x y where v: "users ann_and_bob = [x, y]"
    by (metis length_0_conv length_Suc_conv numeral_2_eq_2)
  with 7 11 have ids2: "sid x = 1" "sid y = 2" "name y = str ''bob''" by simp_all
  from v have m2: "y \<in> set (users ann_and_bob)" by simp
  from 9 ids2 have ci2: "cinput (conns ann_and_bob (sid y))" by simp
  from 10 have q2: "sanitize (str ''/exit'') = str ''/quit'' \<or> sanitize (str ''/exit'') = str ''/exit''"
    by simp
  from 8 have w2: "\<forall>u\<in>set (users ann_and_bob). sid u \<noteq> sid y \<longrightarrow> \<not> broken (outputSink u)"
    by simp
  note t2 = quit_then_close [OF 6 m2 ci2 q2 refl, of id]
  from t1 split t2 w2 1 2 3 4 5 6 7 8 9 10 u v ids ids2
  show ?thesis by (simp add: list_all_iff)
qed

text \<open>
  Claim C8, as stated, fails. ann, bob and cy are registered and bob's sink raises. ann
  submits \<open>/quit\<close> and her connection closes: the \<open>close\<close> handler removes ann and raises
  at bob, and cy, a remaining member whose sink works, gets no left notice.
\<close>

theorem left_notice_stops_at_raising_sink:
  "map sid (users bob_raising) = [1, 2, 3] \<and>
   map (\<lambda>u. broken (outputSink u)) (users bob_raising) = [False, True, False] \<and>
   \<not> raised (on_submit id 1 (str ''/quit'') bob_raising) \<and>
   raised (on_close id 1 (state_of (on_submit id 1 (str ''/quit'') bob_raising))) \<and>
   map sid (users (run id lc_ascii bob_raising [Submit 1 (str ''/quit''), Close 1])) = [2, 3] \<and>
   entries (outputSink (users (run id lc_ascii bob_raising [Submit 1 (str ''/quit''), Close 1]) ! 1)) =
     entries (outputSink (users bob_raising ! 2))"
  by code_simp

section \<open>Terminal geometry at registration\<close>

lemma step_geometry_kept:
  assumes "\<not> geometry_handled c s e"
  shows "crows (conns (state_of (step pt lc s e)) c) = crows (conns s c) \<and>
         ccols (conns (state_of (step pt lc s e)) c) = ccols (conns s c)"
proof (cases "geometry_event c e")
  case False
  then show ?thesis by (rule step_geometry_vars)
next
  case True
  then show ?thesis
  proof (cases e)
    case (Pty c' r cl t)
    with True assms show ?thesis by (auto simp: on_pty_def Let_def)
  next
    case (WindowChange c' r cl)
    with True assms show ?thesis by (auto simp: on_window_change_def Let_def)
  qed simp_all
qed

lemma run_geometry_kept:
  "none_handled pt lc c s evs \<Longrightarrow>
     crows (conns (run pt lc s evs) c) = crows (conns s c) \<and>
     ccols (conns (run pt lc s evs) c) = ccols (conns s c)"
  by (induction evs arbitrary: s) (simp_all add: step_geometry_kept)

text \<open>
  Claim C10, as the code has it. The \<open>pty\<close> and the \<open>window-change\<close> listeners write the
  same two variables, and the \<open>shell\<close> handler reads them. For an accepted connection
  without a stream: when no pseudo-terminal request and no window change has been handled
  for it since the start, the session gets 24 rows and 80 columns; when the latest of
  them handled before the shell reported \<open>r\<close> rows and \<open>cl\<close> columns, whatever else happened
  in between, the session gets 24 rows if \<open>r\<close> is 0 and \<open>r\<close> rows otherwise, and 80
  columns if \<open>cl\<close> is 0 and \<open>cl\<close> columns otherwise. A zero is replaced by its own
  fallback and never stored; the other dimension is kept.
\<close>

theorem shell_geometry_from_last_report:
  assumes "s' = run pt lc s0 evs" and "none_handled pt lc c s0 evs"
    and "cname (conns s' c) = Some nm" and "cstream (conns s' c) = None"
  shows "(s0 = init \<longrightarrow>
            rows (last (users (state_of (on_shell pt c s')))) = 24 \<and>
            columns (last (users (state_of (on_shell pt c s')))) = 80) \<and>
         (s0 = on_pty c r cl t s \<and> geometry_handled c s (Pty c r cl t) \<longrightarrow>
            rows (last (users (state_of (on_shell pt c s')))) = (if r = 0 then 24 else r) \<and>
            columns (last (users (state_of (on_shell pt c s')))) = (if cl = 0 then 80 else cl)) \<and>
         (s0 = on_window_change c r cl s \<and> geometry_handled c s (WindowChange c r cl) \<longrightarrow>
            rows (last (users (state_of (on_shell pt c s')))) = (if r = 0 then 24 else r) \<and>
            columns (last (users (state_of (on_shell pt c s')))) = (if cl = 0 then 80 else cl))"
proof -
  have keep: "crows (conns s' c) = crows (conns s0 c) \<and> ccols (conns s' c) = ccols (conns s0 c)"
    unfolding assms(1) using assms(2) by (rule run_geometry_kept)
  note g = on_shell_geometry [OF assms(3,4), of pt]
  have a: "rows (last (users (state_of (on_shell pt c s')))) = 24 \<and>
      columns (last (users (state_of (on_shell pt c s')))) = 80" if "s0 = init"
    using that keep g by (simp add: init_def fresh_conn_def or_default_def)
  have b: "rows (last (users (state_of (on_shell pt c s')))) = (if r = 0 then 24 else r) \<and>
      columns (last (users (state_of (on_shell pt c s')))) = (if cl = 0 then 80 else cl)"
    if "s0 = on_pty c r cl t s \<and> geometry_handled c s (Pty c r cl t)"
  proof -
    from that have "crows (conns s0 c) = Some r \<and> ccols (conns s0 c) = Some cl"
      by (auto simp: on_pty_def Let_def set_conn_def)
    with keep g show ?thesis by (simp add: or_default_def)
  qed
  have w: "rows (last (users (state_of (on_shell pt c s')))) = (if r = 0 then 24 else r) \<and>
      columns (last (users (state_of (on_shell pt c s')))) = (if cl = 0 then 80 else cl)"
    if "s0 = on_window_change c r cl s \<and> geometry_handled c s (WindowChange c r cl)"
  proof -
    from that have "crows (conns s0 c) = Some r \<and> ccols (conns s0 c) = Some cl"
      by (auto simp: on_window_change_def Let_def set_conn_def split: option.splits)
    with keep g show ?thesis by (simp add: or_default_def)
  qed
  from a b w show ?thesis by blast
qed

theorem shell_geometry_from_last_report_witness:
  "cname (conns ann_accepted 1) = Some (str ''ann'') \<and> cstream (conns ann_accepted 1) = None \<and>
   geometry_handled 1 ann_accepted (Pty 1 0 132 (str ''xterm'')) \<and>
   geometry_handled 1 ann_accepted (WindowChange 1 40 0) \<and>
   none_handled id lc_ascii 1 (on_pty 1 0 132 (str ''xterm'') ann_accepted)
     [Authentication 2 (str ''bob'') (str ''none''), Pty 1 50 50 (str ''vt100'')] \<and>
   rows (last (users (state_of (on_shell id 1 ann_accepted)))) = 24 \<and>
   columns (last (users (state_of (on_shell id 1 ann_accepted)))) = 80 \<and>
   rows (last (users (state_of (on_shell id 1
     (run id lc_ascii (on_pty 1 0 132 (str ''xterm'') ann_accepted)
        [Authentication 2 (str ''bob'') (str ''none''), Pty 1 50 50 (str ''vt100'')]))))) = 24 \<and>
   columns (last (users (state_of (on_shell id 1
     (run id lc_ascii (on_pty 1 0 132 (str ''xterm'') ann_accepted)
        [Authentication 2 (str ''bob'') (str ''none''), Pty 1 50 50 (str ''vt100'')]))))) = 132 \<and>
   rows (last (users (state_of (on_shell id 1
     (run id lc_ascii (on_window_change 1 40 0 ann_accepted)
        [Authentication 2 (str ''bob'') (str ''none'')]))))) = 40 \<and>
   columns (last (users (state_of (on_shell id 1
     (run id lc_ascii (on_window_change 1 40 0 ann_accepted)
        [Authentication 2 (str ''bob'') (str ''none'')]))))) = 80"
proof -
  let ?e = "Authentication 2 (str ''bob'') (str ''none'')"
  let ?a = "[Authentication 1 (str ''ann'') (str ''none'')]"
  let ?pe = "[?e, Pty 1 50 50 (str ''vt100'')]"
  let ?p = "run id lc_ascii (on_pty 1 0 132 (str ''xterm'') ann_accepted) ?pe"
  let ?w = "run id lc_ascii (on_window_change 1 40 0 ann_accepted) [?e]"
  have 1: "cname (conns ann_accepted 1) = Some (str ''ann'')" by code_simp
  have 2: "cstream (conns ann_accepted 1) = None" by code_simp
  have 3: "geometry_handled 1 ann_accepted (Pty 1 0 132 (str ''xterm''))" by code_simp
  have 4: "geometry_handled 1 ann_accepted (WindowChange 1 40 0)" by code_simp
  have a: "ann_accepted = run id lc_ascii init ?a" by (simp add: ann_accepted_def)
  have na: "none_handled id lc_ascii 1 init ?a" by simp
  have np: "none_handled id lc_ascii 1 (on_pty 1 0 132 (str ''xterm'') ann_accepted) ?pe"
    by code_simp
  have nw: "none_handled id lc_ascii 1 (on_window_change 1 40 0 ann_accepted) [?e]"
    by simp
  have p1: "cname (conns ?p 1) = Some (str ''ann'')" by code_simp
  have p2: "cstream (conns ?p 1) = None" by code_simp
  have w1: "cname (conns ?w 1) = Some (str ''ann'')" by code_simp
  have w2: "cstream (conns ?w 1) = None" by code_simp
  from shell_geometry_from_last_report [OF a na 1 2, of 0 0 "[]" init]
    shell_geometry_from_last_report [OF refl np p1 p2, of 0 132 "str ''xterm''" ann_accepted]
    shell_geometry_from_last_report [OF refl nw w1 w2, of 40 0 "[]" ann_accepted]
    1 2 3 4 np
  show ?thesis by simp
qed

text \<open>
  Claim C10, as stated, fails. With no pseudo-terminal request but a window change of 40
  rows and 100 columns before the shell, the session has 40 rows and 100 columns; and
  after a pseudo-terminal request of 0 rows and 132 columns it has 24 rows and 132
  columns, not 80.
\<close>

theorem shell_after_window_change_only:
  "rows (last (users (run id lc_ascii init
     [Authentication 1 (str ''ann'') (str ''none''), WindowChange 1 40 100, Shell 1]))) = 40 \<and>
   columns (last (users (run id lc_ascii init
     [Authentication 1 (str ''ann'') (str ''none''), WindowChange 1 40 100, Shell 1]))) = 100 \<and>
   rows (last (users (run id lc_ascii init
     [Authentication 1 (str ''ann'') (str ''none''), Pty 1 0 132 (str ''xterm''), Shell 1]))) = 24 \<and>
   columns (last (users (run id lc_ascii init
     [Authentication 1 (str ''ann'') (str ''none''), Pty 1 0 132 (str ''xterm''), Shell 1]))) = 132"
  by code_simp

end
